theory Spec2Isabelle
  imports Main "HOL-Library.AList" "HOL-Library.Char_ord" "HOL-Library.List_Lexorder"
    "HOL-Library.Multiset"
begin

section \<open>Strings\<close>

text \<open>
  JavaScript strings are modelled as \<^typ>\<open>string\<close> (byte strings, read as the UTF-8
  encoding of the text). The order used by \<open>Array.prototype.sort\<close> without a comparator
  is the lexicographic order on code units; here it is the lexicographic order on bytes,
  with a proper prefix smaller than its extensions. The results below use of this order
  only that it is linear.
\<close>

text \<open>\<open>Array.prototype.join\<close>: the elements separated by \<open>sep\<close>; the empty array gives
  the empty string.\<close>

fun join :: "string \<Rightarrow> string list \<Rightarrow> string" where
  "join sep [] = []"
| "join sep [x] = x"
| "join sep (x # y # ys) = x @ sep @ join sep (y # ys)"

text \<open>\<open>String.prototype.includes\<close>: \<open>sub\<close> occurs in \<open>s\<close> at some position.\<close>

fun str_includes :: "string \<Rightarrow> string \<Rightarrow> bool" where
  "str_includes [] sub = (sub = [])"
| "str_includes (c # cs) sub = (take (length sub) (c # cs) = sub \<or> str_includes cs sub)"

text \<open>\<open>String.prototype.toLowerCase\<close> on the ASCII letters; other bytes are kept.\<close>

definition lower_char :: "char \<Rightarrow> char" where
  "lower_char c =
     (if CHR ''A'' \<le> c \<and> c \<le> CHR ''Z'' then char_of (of_char c + (32::nat)) else c)"

definition toLowerCase :: "string \<Rightarrow> string" where
  "toLowerCase s = map lower_char s"

text \<open>
  \<open>String.prototype.trim\<close> removes the white space and line terminators of ECMAScript
  at both ends: U+0009 to U+000D, U+0020, U+00A0, U+1680, U+2000 to U+200A, U+2028, U+2029,
  U+202F, U+205F, U+3000 and U+FEFF. \<open>white_space\<close> lists their UTF-8 encodings.
  \<open>strip_start\<close> removes from the start of a string every leading occurrence of one of
  the given byte sequences; the end is stripped on the reversed string.
\<close>

definition white_space :: "string list" where
  "white_space =
     [[CHR 0x09], [CHR 0x0A], [CHR 0x0B], [CHR 0x0C], [CHR 0x0D], [CHR 0x20],
      [CHR 0xC2, CHR 0xA0],
      [CHR 0xE1, CHR 0x9A, CHR 0x80],
      [CHR 0xE2, CHR 0x80, CHR 0x80], [CHR 0xE2, CHR 0x80, CHR 0x81],
      [CHR 0xE2, CHR 0x80, CHR 0x82], [CHR 0xE2, CHR 0x80, CHR 0x83],
      [CHR 0xE2, CHR 0x80, CHR 0x84], [CHR 0xE2, CHR 0x80, CHR 0x85],
      [CHR 0xE2, CHR 0x80, CHR 0x86], [CHR 0xE2, CHR 0x80, CHR 0x87],
      [CHR 0xE2, CHR 0x80, CHR 0x88], [CHR 0xE2, CHR 0x80, CHR 0x89],
      [CHR 0xE2, CHR 0x80, CHR 0x8A],
      [CHR 0xE2, CHR 0x80, CHR 0xA8], [CHR 0xE2, CHR 0x80, CHR 0xA9],
      [CHR 0xE2, CHR 0x80, CHR 0xAF],
      [CHR 0xE2, CHR 0x81, CHR 0x9F],
      [CHR 0xE3, CHR 0x80, CHR 0x80],
      [CHR 0xEF, CHR 0xBB, CHR 0xBF]]"

function strip_start :: "string list \<Rightarrow> string \<Rightarrow> string" where
  "strip_start seqs s =
     (case find (\<lambda>w. w \<noteq> [] \<and> take (length w) s = w) seqs of
        None \<Rightarrow> s
      | Some w \<Rightarrow> strip_start seqs (drop (length w) s))"
  by pat_completeness auto
termination
proof (relation "measure (\<lambda>(seqs, s). length s)")
  show "wf (measure (\<lambda>(seqs, s). length s))" by simp
next
  fix seqs :: "string list" and s w :: string
  assume "find (\<lambda>w. w \<noteq> [] \<and> take (length w) s = w) seqs = Some w"
  then have w: "w \<noteq> []" "take (length w) s = w"
    by (auto simp: find_Some_iff)
  from w(2) have "length (take (length w) s) = length w" by simp
  then have "length w \<le> length s" by (simp add: min_def split: if_splits)
  with w(1) show "((seqs, drop (length w) s), (seqs, s)) \<in> measure (\<lambda>(seqs, s). length s)"
    by (cases w) auto
qed

definition trim :: "string \<Rightarrow> string" where
  "trim s = rev (strip_start (map rev white_space) (rev (strip_start white_space s)))"

text \<open>\<open>(article.match(/______/g) || []).length\<close>: the number of matches of the blank
  marker, found from left to right without overlap.\<close>

definition blank :: string where
  "blank = ''______''"

fun countBlanks :: "string \<Rightarrow> nat" where
  "countBlanks [] = 0"
| "countBlanks (c # cs) =
     (if take 6 (c # cs) = blank then Suc (countBlanks (drop 5 cs)) else countBlanks cs)"

section \<open>Mastery buckets\<close>

text \<open>The bucket column of \<open>user_words\<close> is text; the three buckets are
  \<open>'needs work'\<close>, \<open>'familiar'\<close> and \<open>'well known'\<close> (the spec's \<open>needs_work\<close>,
  \<open>familiar\<close>, \<open>mastered\<close>).\<close>

definition needs_work :: string where
  "needs_work = ''needs work''"

definition familiar :: string where
  "familiar = ''familiar''"

definition well_known :: string where
  "well_known = ''well known''"

text \<open>The value of \<open>newBucket\<close> computed by the quiz-result handler from
  \<open>userWord.bucket\<close> and \<open>isCorrect\<close>.\<close>

definition newBucket :: "string \<Rightarrow> bool \<Rightarrow> string" where
  "newBucket bucket isCorrect =
     (if isCorrect then
        (if bucket = needs_work then familiar
         else if bucket = familiar then well_known
         else bucket)
      else needs_work)"


section \<open>Data model\<close>

text \<open>\<open>interface Word\<close> of the article service, also the columns of the \<open>words\<close> table
  that the handlers read.\<close>

record Word =
  w_id :: string
  w_word :: string
  w_definition :: string

record user_row =
  u_id :: string
  u_device_id :: string

record user_word_row =
  uw_id :: string
  uw_user_id :: string
  uw_word_id :: string
  uw_bucket :: string
  uw_created_at :: int
  uw_last_reviewed :: "int option"
  uw_review_count :: int
  uw_correct_count :: int
  uw_incorrect_count :: int

record quiz_result_row =
  qr_id :: string
  qr_user_id :: string
  qr_word_id :: string
  qr_is_correct :: int
  qr_quiz_type :: string
  qr_timestamp :: int

record cached_article_row =
  ca_id :: string
  ca_word_ids :: string
  ca_article_text :: string
  ca_created_at :: int
  ca_access_count :: int
  ca_last_accessed :: int

record daily_progress_row =
  dp_id :: string
  dp_user_id :: string
  dp_date :: string
  dp_words_saved :: int
  dp_quizzes_completed :: int
  dp_words_reviewed :: int
  dp_created_at :: int

text \<open>
  The state of the server process: the tables of the database, each in row order, the
  \<open>node-cache\<close> instance \<open>memoryCache\<close> (key, value and expiry time in milliseconds, 0 for
  an entry that never expires), and whether the lazily created OpenAI client exists.
\<close>

record state =
  words :: "Word list"
  users :: "user_row list"
  user_words :: "user_word_row list"
  quiz_results :: "quiz_result_row list"
  cached_articles :: "cached_article_row list"
  daily_progress :: "daily_progress_row list"
  memoryCache :: "(string \<times> string \<times> int) list"
  openaiClient :: bool

text \<open>
  The environment variables of the process, after \<open>parseInt\<close> with the defaults of the
  source, and the \<open>foreign_keys\<close> pragma of the database connection.
\<close>

record config =
  OPENAI_API_KEY :: "string option"
  CACHE_TTL_SECONDS :: int
  MAX_CACHED_ARTICLES :: int
  QUIZ_CACHE_TTL_SECONDS :: int
  foreign_keys :: bool

definition default_config :: config where
  "default_config =
     \<lparr>OPENAI_API_KEY = None, CACHE_TTL_SECONDS = 3600, MAX_CACHED_ARTICLES = 1000,
      QUIZ_CACHE_TTL_SECONDS = 86400, foreign_keys = True\<rparr>"

text \<open>What the text generator does when it is called: the request fails (provider error,
  time-out), or it answers with \<open>choices[0]?.message?.content\<close>, which may be missing.\<close>

datatype llm_result = LLMFails | LLMContent "string option"

text \<open>
  What a call reads from outside: \<open>Date.now()\<close> in milliseconds (the clock of the database
  is the same one, in seconds), the strings
  \<open>${Date.now()}-${Math.random().toString(36).substr(2, 9)}\<close> of the first and the second
  identifier built in the call, the day \<open>new Date().toISOString().split('T')[0]\<close>, and the
  text generator's answer.
\<close>

record env =
  now :: int
  uid1 :: string
  uid2 :: string
  today :: string
  llm :: llm_result

datatype error =
    NoWordsProvided
  | ApiKeyNotSet
  | ECACHEFULL
  | SqliteConstraint
  | ReferenceError

text \<open>What a route handler answers: \<open>res.status(n).json({error})\<close>, one of the three
  success bodies, or \<open>next(error)\<close>.\<close>

datatype response =
    Status nat string
  | SaveWordJson string string
  | QuizResultJson string string "string option"
  | GenerateJson string "Word list"
  | Next error

definition clock :: "env \<Rightarrow> int" where
  "clock e = now e div 1000"


section \<open>Tables and their constraints\<close>

text \<open>
  An \<open>INSERT\<close> is refused by the database (the statement throws) when the new row breaks
  a constraint of the schema: the primary key \<open>id\<close>, the \<open>UNIQUE\<close> pairs of \<open>user_words\<close>
  and \<open>daily_progress\<close>, and the foreign keys when the connection enforces them.
  \<open>None\<close> is the refusal.
\<close>

definition insert_user_word :: "config \<Rightarrow> user_word_row \<Rightarrow> state \<Rightarrow> state option" where
  "insert_user_word cfg r s =
     (if uw_id r \<in> set (map uw_id (user_words s))
         \<or> (uw_user_id r, uw_word_id r) \<in> set (map (\<lambda>x. (uw_user_id x, uw_word_id x)) (user_words s))
         \<or> (foreign_keys cfg \<and>
              (uw_user_id r \<notin> set (map u_id (users s)) \<or> uw_word_id r \<notin> set (map w_id (words s))))
      then None
      else Some (s\<lparr>user_words := user_words s @ [r]\<rparr>))"

definition insert_quiz_result :: "config \<Rightarrow> quiz_result_row \<Rightarrow> state \<Rightarrow> state option" where
  "insert_quiz_result cfg r s =
     (if qr_id r \<in> set (map qr_id (quiz_results s))
         \<or> (foreign_keys cfg \<and>
              (qr_user_id r \<notin> set (map u_id (users s)) \<or> qr_word_id r \<notin> set (map w_id (words s))))
      then None
      else Some (s\<lparr>quiz_results := quiz_results s @ [r]\<rparr>))"

definition insert_daily_progress :: "config \<Rightarrow> daily_progress_row \<Rightarrow> state \<Rightarrow> state option" where
  "insert_daily_progress cfg r s =
     (if dp_id r \<in> set (map dp_id (daily_progress s))
         \<or> (dp_user_id r, dp_date r) \<in> set (map (\<lambda>x. (dp_user_id x, dp_date x)) (daily_progress s))
         \<or> (foreign_keys cfg \<and> dp_user_id r \<notin> set (map u_id (users s)))
      then None
      else Some (s\<lparr>daily_progress := daily_progress s @ [r]\<rparr>))"

definition insert_cached_article :: "cached_article_row \<Rightarrow> state \<Rightarrow> state option" where
  "insert_cached_article r s =
     (if ca_id r \<in> set (map ca_id (cached_articles s)) then None
      else Some (s\<lparr>cached_articles := cached_articles s @ [r]\<rparr>))"

section \<open>Progress routes\<close>

text \<open>The day's \<open>daily_progress\<close> row of a user, as \<open>.get(userId, today)\<close> returns it.\<close>

definition get_daily_progress :: "state \<Rightarrow> string \<Rightarrow> string \<Rightarrow> daily_progress_row option" where
  "get_daily_progress s userId day =
     find (\<lambda>p. dp_user_id p = userId \<and> dp_date p = day) (daily_progress s)"

definition get_user_word :: "state \<Rightarrow> string \<Rightarrow> string \<Rightarrow> user_word_row option" where
  "get_user_word s userId wordId =
     find (\<lambda>r. uw_user_id r = userId \<and> uw_word_id r = wordId) (user_words s)"

text \<open>\<open>POST /api/progress/save-word\<close>.\<close>

definition save_word :: "config \<Rightarrow> env \<Rightarrow> state \<Rightarrow> string \<Rightarrow> string \<Rightarrow> response \<times> state" where
  "save_word cfg e s userId wordId =
     (if userId = [] \<or> wordId = [] then (Status 400 ''userId and wordId are required'', s)
      else case find (\<lambda>w. w_id w = wordId) (words s) of
        None \<Rightarrow> (Status 404 ''Word not found'', s)
      | Some word \<Rightarrow>
         (case get_user_word s userId wordId of
            Some existing \<Rightarrow> (SaveWordJson ''Word already saved'' (uw_id existing), s)
          | None \<Rightarrow>
             (let userWordId = ''uw-'' @ uid1 e in
              case insert_user_word cfg
                     \<lparr>uw_id = userWordId, uw_user_id = userId, uw_word_id = wordId,
                      uw_bucket = needs_work, uw_created_at = clock e, uw_last_reviewed = None,
                      uw_review_count = 0, uw_correct_count = 0, uw_incorrect_count = 0\<rparr> s of
                None \<Rightarrow> (Next SqliteConstraint, s)
              | Some s1 \<Rightarrow>
                 (case get_daily_progress s1 userId (today e) of
                    Some dailyProgress \<Rightarrow>
                      (SaveWordJson ''Word saved successfully'' userWordId,
                       s1\<lparr>daily_progress :=
                            map (\<lambda>p. if dp_id p = dp_id dailyProgress
                                      then p\<lparr>dp_words_saved := dp_words_saved p + 1\<rparr> else p)
                              (daily_progress s1)\<rparr>)
                  | None \<Rightarrow>
                     (let progressId = ''dp-'' @ uid2 e in
                      case insert_daily_progress cfg
                             \<lparr>dp_id = progressId, dp_user_id = userId, dp_date = today e,
                              dp_words_saved = 1, dp_quizzes_completed = 0,
                              dp_words_reviewed = 0, dp_created_at = clock e\<rparr> s1 of
                        None \<Rightarrow> (Next SqliteConstraint, s1)
                      | Some s2 \<Rightarrow> (SaveWordJson ''Word saved successfully'' userWordId, s2))))))"

text \<open>
  \<open>POST /api/progress/quiz-result\<close>. The \<open>UPDATE\<close> of \<open>user_words\<close> is \<open>update_user_word\<close>.
  The variable \<open>newBucket\<close> is declared with \<open>let\<close> inside the block \<open>if (userWord) { ... }\<close>;
  the response object reads it after that block, where it is not in scope, when
  \<open>userWord\<close> is a row: the read throws a \<open>ReferenceError\<close>, which the handler's \<open>catch\<close>
  passes to \<open>next\<close>, after the three tables have been written.
\<close>

definition update_user_word :: "user_word_row \<Rightarrow> string \<Rightarrow> bool \<Rightarrow> int \<Rightarrow> user_word_row" where
  "update_user_word r bucket isCorrect t =
     r\<lparr>uw_bucket := bucket,
       uw_last_reviewed := Some t,
       uw_review_count := uw_review_count r + 1,
       uw_correct_count := uw_correct_count r + (if isCorrect then 1 else 0),
       uw_incorrect_count := uw_incorrect_count r + (if isCorrect then 0 else 1)\<rparr>"

definition quiz_result ::
  "config \<Rightarrow> env \<Rightarrow> state \<Rightarrow> string \<Rightarrow> string \<Rightarrow> bool \<Rightarrow> response \<times> state" where
  "quiz_result cfg e s userId wordId isCorrect =
     (if userId = [] \<or> wordId = [] then
        (Status 400 ''userId, wordId, and isCorrect are required'', s)
      else if find (\<lambda>u. u_id u = userId) (users s) = None then
        (Status 404 ''User not found'', s)
      else if find (\<lambda>w. w_id w = wordId) (words s) = None then
        (Status 404 ''Word not found'', s)
      else
        (let resultId = ''qr-'' @ uid1 e in
         case insert_quiz_result cfg
                \<lparr>qr_id = resultId, qr_user_id = userId, qr_word_id = wordId,
                 qr_is_correct = (if isCorrect then 1 else 0), qr_quiz_type = ''fill_blank'',
                 qr_timestamp = clock e\<rparr> s of
           None \<Rightarrow> (Next SqliteConstraint, s)
         | Some s1 \<Rightarrow>
            (case get_user_word s1 userId wordId of
               None \<Rightarrow> (QuizResultJson ''Quiz result saved'' resultId None, s1)
             | Some userWord \<Rightarrow>
                (let s2 = s1\<lparr>user_words :=
                            map (\<lambda>r. if uw_id r = uw_id userWord
                                      then update_user_word r
                                             (newBucket (uw_bucket userWord) isCorrect)
                                             isCorrect (clock e)
                                      else r)
                              (user_words s1)\<rparr>
                 in case get_daily_progress s2 userId (today e) of
                      Some dailyProgress \<Rightarrow>
                        (Next ReferenceError,
                         s2\<lparr>daily_progress :=
                              map (\<lambda>p. if dp_id p = dp_id dailyProgress
                                        then p\<lparr>dp_words_reviewed := dp_words_reviewed p + 1\<rparr>
                                        else p)
                                (daily_progress s2)\<rparr>)
                    | None \<Rightarrow>
                       (let progressId = ''dp-'' @ uid2 e in
                        case insert_daily_progress cfg
                               \<lparr>dp_id = progressId, dp_user_id = userId, dp_date = today e,
                                dp_words_saved = 0, dp_quizzes_completed = 0,
                                dp_words_reviewed = 1, dp_created_at = clock e\<rparr> s2 of
                          None \<Rightarrow> (Next SqliteConstraint, s2)
                        | Some s3 \<Rightarrow> (Next ReferenceError, s3))))))"


section \<open>The article service\<close>

subsection \<open>The memory cache\<close>

text \<open>
  \<open>memoryCache\<close> is a \<open>node-cache\<close> instance created with \<open>stdTTL = CACHE_TTL_SECONDS\<close>
  and \<open>maxKeys = MAX_CACHED_ARTICLES\<close>. The library is not part of the repository; these
  three functions follow its documented behaviour. \<open>get\<close> returns the value of a key
  that is stored and has not expired, and removes a key it finds expired. \<open>set\<close> throws
  \<open>ECACHEFULL\<close> when \<open>maxKeys\<close> is not negative and that many keys are stored, and
  otherwise stores the value with the expiry time \<open>now + stdTTL * 1000\<close> (0, never, when
  \<open>stdTTL\<close> is 0). The periodic check removes every expired key.
\<close>

definition expired :: "int \<Rightarrow> int \<Rightarrow> bool" where
  "expired t_now t = (t \<noteq> 0 \<and> t < t_now)"

definition cache_get ::
  "int \<Rightarrow> string \<Rightarrow> (string \<times> string \<times> int) list \<Rightarrow> string option \<times> (string \<times> string \<times> int) list" where
  "cache_get t_now k m =
     (case map_of m k of
        None \<Rightarrow> (None, m)
      | Some (v, t) \<Rightarrow> if expired t_now t then (None, AList.delete k m) else (Some v, m))"

definition cache_set ::
  "config \<Rightarrow> int \<Rightarrow> string \<Rightarrow> string \<Rightarrow> (string \<times> string \<times> int) list
     \<Rightarrow> (string \<times> string \<times> int) list option" where
  "cache_set cfg t_now k v m =
     (if MAX_CACHED_ARTICLES cfg > -1 \<and> int (length m) \<ge> MAX_CACHED_ARTICLES cfg then None
      else Some (AList.update k
                   (v, if CACHE_TTL_SECONDS cfg = 0 then 0
                       else t_now + CACHE_TTL_SECONDS cfg * 1000) m))"

definition cache_checkData :: "int \<Rightarrow> (string \<times> string \<times> int) list \<Rightarrow> (string \<times> string \<times> int) list" where
  "cache_checkData t_now m = filter (\<lambda>(k, v, t). \<not> expired t_now t) m"

subsection \<open>The API key and the client\<close>

definition is_quote :: "char \<Rightarrow> bool" where
  "is_quote c = (c = CHR 0x22 \<or> c = CHR 0x27)"

text \<open>\<open>.replace(/^["']|["']$/g, '')\<close>: one quote is removed at the start and one at the
  end.\<close>

definition strip_quotes :: "string \<Rightarrow> string" where
  "strip_quotes s =
     (let s1 = (case s of [] \<Rightarrow> [] | c # cs \<Rightarrow> if is_quote c then cs else s)
      in if s1 \<noteq> [] \<and> is_quote (last s1) then butlast s1 else s1)"

definition getApiKey :: "config \<Rightarrow> error + string" where
  "getApiKey cfg =
     (let key = strip_quotes (trim (case OPENAI_API_KEY cfg of None \<Rightarrow> [] | Some k \<Rightarrow> k))
      in if key = [] then Inl ApiKeyNotSet else Inr key)"

text \<open>\<open>getOpenAIClient\<close>: the client is created on the first call, which needs the key.\<close>

definition getOpenAIClient :: "config \<Rightarrow> state \<Rightarrow> error + state" where
  "getOpenAIClient cfg s =
     (if openaiClient s then Inr s
      else case getApiKey cfg of
             Inl err \<Rightarrow> Inl err
           | Inr key \<Rightarrow> Inr (s\<lparr>openaiClient := True\<rparr>))"

subsection \<open>Generation\<close>

text \<open>The sentence that \<open>generateFallbackArticle\<close> pushes for one word.\<close>

definition fallbackSentence :: "Word \<Rightarrow> string" where
  "fallbackSentence w =
     (let definition = toLowerCase (w_definition w) in
      if str_includes definition ''time'' \<or> str_includes definition ''short'' then
        ''The ______ nature of the event made it all the more special.''
      else if str_includes definition ''everywhere'' \<or> str_includes definition ''present'' then
        ''Technology has become ______ in our daily lives.''
      else if str_includes definition ''chance'' \<or> str_includes definition ''discovery'' then
        ''Finding that solution was pure ______.''
      else if str_includes definition ''speaking'' \<or> str_includes definition ''writing'' then
        ''Her ______ presentation captivated the entire audience.''
      else if str_includes definition ''recover'' \<or> str_includes definition ''difficulties'' then
        ''The community proved to be remarkably ______ after the crisis.''
      else if str_includes definition ''detail'' \<or> str_includes definition ''careful'' then
        ''His ______ approach ensured nothing was overlooked.''
      else if str_includes definition ''meaning'' \<or> str_includes definition ''unclear'' then
        ''The instructions were intentionally ______, leaving room for interpretation.''
      else if str_includes definition ''practical'' \<or> str_includes definition ''real'' then
        ''We need a more ______ solution to this problem.''
      else
        ''The concept of ______ is essential in this context.'')"

definition generateFallbackArticle :: "Word list \<Rightarrow> string" where
  "generateFallbackArticle ws = join '' '' (map fallbackSentence ws)"

text \<open>
  \<open>generateArticleWithLLM\<close>. The client is obtained before the \<open>try\<close> block, so a missing
  key is thrown to the caller; inside the block a failed request and an empty answer both
  end in the fallback text. An answer whose number of blanks differs from the number of
  words is only logged and is returned as it is.
\<close>

definition generateArticleWithLLM ::
  "config \<Rightarrow> env \<Rightarrow> state \<Rightarrow> Word list \<Rightarrow> (error + string) \<times> state" where
  "generateArticleWithLLM cfg e s ws =
     (case getOpenAIClient cfg s of
        Inl err \<Rightarrow> (Inl err, s)
      | Inr s1 \<Rightarrow>
         (case llm e of
            LLMFails \<Rightarrow> (Inr (generateFallbackArticle ws), s1)
          | LLMContent content \<Rightarrow>
             (let article = (case content of None \<Rightarrow> [] | Some c \<Rightarrow> trim c)
              in if article = [] then (Inr (generateFallbackArticle ws), s1)
                 else (Inr article, s1))))"

subsection \<open>Eviction\<close>

text \<open>
  \<open>cleanupOldCache\<close>: the rows last accessed before the cut-off are deleted; then, when
  more than \<open>MAX_CACHED_ARTICLES\<close> rows are left, the rows whose \<open>id\<close> is among the first
  \<open>toDelete\<close> in ascending order of \<open>last_accessed\<close> are deleted. SQL leaves the order of
  rows with equal \<open>last_accessed\<close> open; here they keep their table order.
\<close>

definition cleanupOldCache :: "config \<Rightarrow> env \<Rightarrow> state \<Rightarrow> state" where
  "cleanupOldCache cfg e s =
     (let maxAge = QUIZ_CACHE_TTL_SECONDS cfg;
          cutoffTime = now e div 1000 - maxAge;
          rows1 = filter (\<lambda>r. \<not> ca_last_accessed r < cutoffTime) (cached_articles s);
          totalCount = int (length rows1);
          maxCacheSize = MAX_CACHED_ARTICLES cfg
      in if totalCount > maxCacheSize then
           (let toDelete = totalCount - maxCacheSize;
                ids = map ca_id (take (nat toDelete) (sort_key ca_last_accessed rows1))
            in s\<lparr>cached_articles := filter (\<lambda>r. ca_id r \<notin> set ids) rows1\<rparr>)
         else s\<lparr>cached_articles := rows1\<rparr>)"

subsection \<open>The coordinator\<close>

definition cacheKey :: "Word list \<Rightarrow> string" where
  "cacheKey ws = join '','' (sort (map w_id ws))"

text \<open>\<open>if (cachedMemory)\<close>: a stored value counts as a hit when it is not the empty
  string.\<close>

definition truthy :: "string option \<Rightarrow> string option" where
  "truthy x = (case x of None \<Rightarrow> None | Some v \<Rightarrow> if v = [] then None else Some v)"

definition generateQuizArticle ::
  "config \<Rightarrow> env \<Rightarrow> state \<Rightarrow> Word list \<Rightarrow> (error + string) \<times> state" where
  "generateQuizArticle cfg e s ws =
     (if ws = [] then (Inl NoWordsProvided, s)
      else
        (let key = cacheKey ws;
             probe = cache_get (now e) key (memoryCache s);
             s1 = s\<lparr>memoryCache := snd probe\<rparr>
         in case truthy (fst probe) of
              Some cachedMemory \<Rightarrow> (Inr cachedMemory, s1)
            | None \<Rightarrow>
               (case find (\<lambda>r. ca_word_ids r = key) (cached_articles s1) of
                  Some cachedDb \<Rightarrow>
                    (let s2 = s1\<lparr>cached_articles :=
                                map (\<lambda>r. if ca_word_ids r = key
                                          then r\<lparr>ca_access_count := ca_access_count r + 1,
                                                 ca_last_accessed := clock e\<rparr>
                                          else r)
                                  (cached_articles s1)\<rparr>
                     in case cache_set cfg (now e) key (ca_article_text cachedDb) (memoryCache s2) of
                          None \<Rightarrow> (Inl ECACHEFULL, s2)
                        | Some m2 \<Rightarrow> (Inr (ca_article_text cachedDb), s2\<lparr>memoryCache := m2\<rparr>))
                | None \<Rightarrow>
                   (case generateArticleWithLLM cfg e s1 ws of
                      (Inl err, s2) \<Rightarrow> (Inl err, s2)
                    | (Inr article, s2) \<Rightarrow>
                       (case cache_set cfg (now e) key article (memoryCache s2) of
                          None \<Rightarrow> (Inl ECACHEFULL, s2)
                        | Some m2 \<Rightarrow>
                           (let s3 = s2\<lparr>memoryCache := m2\<rparr>;
                                articleId = ''article-'' @ uid1 e
                            in case insert_cached_article
                                      \<lparr>ca_id = articleId, ca_word_ids = key,
                                       ca_article_text = article, ca_created_at = clock e,
                                       ca_access_count = 0, ca_last_accessed = clock e\<rparr> s3 of
                                 None \<Rightarrow> (Inl SqliteConstraint, s3)
                               | Some s4 \<Rightarrow> (Inr article, cleanupOldCache cfg e s4)))))))"

text \<open>
  The call in two parts. The body of \<open>generateQuizArticle\<close> is synchronous up to the
  request to the text generator, which is awaited: \<open>generateQuizArticle_begin\<close> runs a
  call up to its return (\<open>Some\<close> the result) or up to that request (\<open>None\<close>, after the
  client has been obtained), and \<open>generateQuizArticle_resume\<close> runs the rest, from the
  generator's answer on, in the state and at the time the call is resumed.
  \<open>llm_article\<close> is the text \<open>generateArticleWithLLM\<close> returns from that answer. Other calls
  can run between the two parts.
\<close>

definition llm_article :: "env \<Rightarrow> Word list \<Rightarrow> string" where
  "llm_article e ws =
     (case llm e of
        LLMFails \<Rightarrow> generateFallbackArticle ws
      | LLMContent content \<Rightarrow>
         (let article = (case content of None \<Rightarrow> [] | Some c \<Rightarrow> trim c)
          in if article = [] then generateFallbackArticle ws else article))"

definition generateQuizArticle_begin ::
  "config \<Rightarrow> env \<Rightarrow> state \<Rightarrow> Word list \<Rightarrow> (error + string) option \<times> state" where
  "generateQuizArticle_begin cfg e s ws =
     (if ws = [] then (Some (Inl NoWordsProvided), s)
      else
        (let key = cacheKey ws;
             probe = cache_get (now e) key (memoryCache s);
             s1 = s\<lparr>memoryCache := snd probe\<rparr>
         in case truthy (fst probe) of
              Some cachedMemory \<Rightarrow> (Some (Inr cachedMemory), s1)
            | None \<Rightarrow>
               (case find (\<lambda>r. ca_word_ids r = key) (cached_articles s1) of
                  Some cachedDb \<Rightarrow>
                    (let s2 = s1\<lparr>cached_articles :=
                                map (\<lambda>r. if ca_word_ids r = key
                                          then r\<lparr>ca_access_count := ca_access_count r + 1,
                                                 ca_last_accessed := clock e\<rparr>
                                          else r)
                                  (cached_articles s1)\<rparr>
                     in case cache_set cfg (now e) key (ca_article_text cachedDb) (memoryCache s2) of
                          None \<Rightarrow> (Some (Inl ECACHEFULL), s2)
                        | Some m2 \<Rightarrow>
                            (Some (Inr (ca_article_text cachedDb)), s2\<lparr>memoryCache := m2\<rparr>))
                | None \<Rightarrow>
                   (case getOpenAIClient cfg s1 of
                      Inl err \<Rightarrow> (Some (Inl err), s1)
                    | Inr s2 \<Rightarrow> (None, s2)))))"

definition generateQuizArticle_resume ::
  "config \<Rightarrow> env \<Rightarrow> state \<Rightarrow> Word list \<Rightarrow> (error + string) \<times> state" where
  "generateQuizArticle_resume cfg e s ws =
     (let key = cacheKey ws;
          article = llm_article e ws
      in case cache_set cfg (now e) key article (memoryCache s) of
           None \<Rightarrow> (Inl ECACHEFULL, s)
         | Some m2 \<Rightarrow>
            (let s3 = s\<lparr>memoryCache := m2\<rparr>;
                 articleId = ''article-'' @ uid1 e
             in case insert_cached_article
                       \<lparr>ca_id = articleId, ca_word_ids = key,
                        ca_article_text = article, ca_created_at = clock e,
                        ca_access_count = 0, ca_last_accessed = clock e\<rparr> s3 of
                  None \<Rightarrow> (Inl SqliteConstraint, s3)
                | Some s4 \<Rightarrow> (Inr article, cleanupOldCache cfg e s4)))"


section \<open>Sequences of requests\<close>

datatype request = SaveWord env string string | QuizResult env string string bool

fun handle :: "config \<Rightarrow> request \<Rightarrow> state \<Rightarrow> response \<times> state" where
  "handle cfg (SaveWord e userId wordId) s = save_word cfg e s userId wordId"
| "handle cfg (QuizResult e userId wordId isCorrect) s = quiz_result cfg e s userId wordId isCorrect"

fun run_requests :: "config \<Rightarrow> request list \<Rightarrow> state \<Rightarrow> state" where
  "run_requests cfg [] s = s"
| "run_requests cfg (r # rs) s = run_requests cfg rs (snd (handle cfg r s))"

section \<open>Sequences of cache events\<close>

text \<open>
  The server process while it serves article requests: its state, and the calls of
  \<open>generateQuizArticle\<close> that are suspended at the request to the text generator, each
  with its words. An event is the start of a call, which runs to its return or to that
  request; the resumption of a suspended call with the generator's answer; an eviction
  sweep; or the periodic check of the memory cache. A call that is not interleaved with
  anything is its start followed at once by its resumption.
\<close>

record process =
  p_state :: state
  p_suspended :: "Word list list"

datatype event = Call env "Word list" | Resume nat env | Sweep env | CheckData int

fun apply_event :: "config \<Rightarrow> event \<Rightarrow> process \<Rightarrow> process" where
  "apply_event cfg (Call e ws) p =
     (case generateQuizArticle_begin cfg e (p_state p) ws of
        (Some result, s1) \<Rightarrow> p\<lparr>p_state := s1\<rparr>
      | (None, s1) \<Rightarrow> p\<lparr>p_state := s1, p_suspended := p_suspended p @ [ws]\<rparr>)"
| "apply_event cfg (Resume i e) p =
     (if i < length (p_suspended p)
      then p\<lparr>p_state := snd (generateQuizArticle_resume cfg e (p_state p) (p_suspended p ! i)),
             p_suspended := take i (p_suspended p) @ drop (Suc i) (p_suspended p)\<rparr>
      else p)"
| "apply_event cfg (Sweep e) p = p\<lparr>p_state := cleanupOldCache cfg e (p_state p)\<rparr>"
| "apply_event cfg (CheckData t) p =
     p\<lparr>p_state := (p_state p)\<lparr>memoryCache := cache_checkData t (memoryCache (p_state p))\<rparr>\<rparr>"

fun run_events :: "config \<Rightarrow> event list \<Rightarrow> process \<Rightarrow> process" where
  "run_events cfg [] p = p"
| "run_events cfg (ev # evs) p = run_events cfg evs (apply_event cfg ev p)"

text \<open>No call starts for a key while a call for the same key is suspended.\<close>

fun no_overlap :: "config \<Rightarrow> event list \<Rightarrow> process \<Rightarrow> bool" where
  "no_overlap cfg [] p = True"
| "no_overlap cfg (ev # evs) p =
     ((case ev of
         Call e ws \<Rightarrow> cacheKey ws \<notin> set (map cacheKey (p_suspended p))
       | _ \<Rightarrow> True)
      \<and> no_overlap cfg evs (apply_event cfg ev p))"

section \<open>Properties of the stored data\<close>

text \<open>The counters of a \<open>user_words\<close> row agree: every review was counted as correct or as
  incorrect.\<close>

definition counts_ok :: "user_word_row \<Rightarrow> bool" where
  "counts_ok r = (uw_review_count r = uw_correct_count r + uw_incorrect_count r)"

text \<open>Every \<open>user_words\<close> row names a user and a word, and the word is a row of \<open>words\<close>.\<close>

definition saved_rows_ok :: "state \<Rightarrow> bool" where
  "saved_rows_ok s =
     (\<forall>r\<in>set (user_words s).
        uw_user_id r \<noteq> [] \<and> uw_word_id r \<noteq> [] \<and> uw_word_id r \<in> set (map w_id (words s)))"

text \<open>Every entry of the memory cache is an entry of the durable cache, with the same
  text.\<close>

definition volatile_subset :: "state \<Rightarrow> bool" where
  "volatile_subset s =
     list_all (\<lambda>(k, v, t). list_ex (\<lambda>r. ca_word_ids r = k \<and> ca_article_text r = v)
                              (cached_articles s))
       (memoryCache s)"

text \<open>No entry of the memory cache differs in its text from a durable row of the same
  key.\<close>

definition never_stale :: "state \<Rightarrow> bool" where
  "never_stale s =
     list_all (\<lambda>(k, v, t). list_all (\<lambda>r. ca_word_ids r = k \<longrightarrow> ca_article_text r = v)
                              (cached_articles s))
       (memoryCache s)"

text \<open>The same on a memory cache and a table, together with the uniqueness of keys in
  both.\<close>

definition coherent :: "(string \<times> string \<times> int) list \<Rightarrow> cached_article_row list \<Rightarrow> bool" where
  "coherent m rows =
     (distinct (map fst m) \<and> distinct (map ca_word_ids rows)
      \<and> (\<forall>k v t r. (k, v, t) \<in> set m \<and> r \<in> set rows \<and> ca_word_ids r = k
             \<longrightarrow> ca_article_text r = v))"

text \<open>The two caches are coherent, the suspended calls have different keys, and no
  durable row has the key of a suspended call.\<close>

definition process_coherent :: "process \<Rightarrow> bool" where
  "process_coherent p =
     (coherent (memoryCache (p_state p)) (cached_articles (p_state p))
      \<and> distinct (map cacheKey (p_suspended p))
      \<and> (\<forall>ws r. ws \<in> set (p_suspended p) \<and> r \<in> set (cached_articles (p_state p))
             \<longrightarrow> ca_word_ids r \<noteq> cacheKey ws))"

section \<open>Example data\<close>

text \<open>A user, a word and three moments of one day, for the progress routes.\<close>

definition ex_word :: Word where
  "ex_word = \<lparr>w_id = ''word-3'', w_word = ''Ephemeral'',
              w_definition = ''Lasting for a very short time''\<rparr>"

definition ex_env :: env where
  "ex_env = \<lparr>now = 1700000000000, uid1 = ''1700000000000-k3j9x2abc'',
             uid2 = ''1700000000000-q8w1e5rty'', today = ''2023-11-14'', llm = LLMFails\<rparr>"

definition ex_env2 :: env where
  "ex_env2 = \<lparr>now = 1700000060000, uid1 = ''1700000060000-a1b2c3d4e'',
              uid2 = ''1700000060000-f5g6h7i8j'', today = ''2023-11-14'', llm = LLMFails\<rparr>"

definition ex_env3 :: env where
  "ex_env3 = \<lparr>now = 1700000120000, uid1 = ''1700000120000-z9y8x7w6v'',
              uid2 = ''1700000120000-u5t4s3r2q'', today = ''2023-11-14'', llm = LLMFails\<rparr>"

definition ex_state :: state where
  "ex_state = \<lparr>words = [ex_word], users = [\<lparr>u_id = ''user-1'', u_device_id = ''device-1''\<rparr>],
               user_words = [], quiz_results = [], cached_articles = [], daily_progress = [],
               memoryCache = [], openaiClient = False\<rparr>"

definition ex_user_word :: user_word_row where
  "ex_user_word = \<lparr>uw_id = ''uw-1700000000000-k3j9x2abc'', uw_user_id = ''user-1'',
                   uw_word_id = ''word-3'', uw_bucket = needs_work, uw_created_at = 1700000000,
                   uw_last_reviewed = None, uw_review_count = 0, uw_correct_count = 0,
                   uw_incorrect_count = 0\<rparr>"

definition ex_saved :: state where
  "ex_saved = ex_state\<lparr>user_words := [ex_user_word]\<rparr>"

definition ex_requests :: "request list" where
  "ex_requests = [SaveWord ex_env ''user-1'' ''word-3'',
                  QuizResult ex_env2 ''user-1'' ''word-3'' True,
                  QuizResult ex_env3 ''user-1'' ''word-3'' False]"

definition ex_quiz_row :: quiz_result_row where
  "ex_quiz_row = \<lparr>qr_id = ''qr-1700000060000-a1b2c3d4e'', qr_user_id = ''user-1'',
                  qr_word_id = ''word-3'', qr_is_correct = 1, qr_quiz_type = ''fill_blank'',
                  qr_timestamp = 1700000060\<rparr>"

text \<open>Three words, two moments 99 seconds apart, and configurations with the API key set,
  for the article service.\<close>

definition ex_config :: config where
  "ex_config = default_config\<lparr>OPENAI_API_KEY := Some ''sk-test''\<rparr>"

definition ex_small_config :: config where
  "ex_small_config = ex_config\<lparr>MAX_CACHED_ARTICLES := 2\<rparr>"

definition ex_short_ttl_config :: config where
  "ex_short_ttl_config = ex_config\<lparr>QUIZ_CACHE_TTL_SECONDS := 60\<rparr>"

definition wA :: Word where
  "wA = \<lparr>w_id = ''A'', w_word = ''Ephemeral'', w_definition = ''Lasting for a very short time''\<rparr>"

definition wB :: Word where
  "wB = \<lparr>w_id = ''B'', w_word = ''Ubiquitous'',
         w_definition = ''Present, appearing, or found everywhere''\<rparr>"

definition wC :: Word where
  "wC = \<lparr>w_id = ''C'', w_word = ''Laconic'', w_definition = ''Using very few words''\<rparr>"

definition w_ab :: Word where
  "w_ab = \<lparr>w_id = ''a,b'', w_word = ''Laconic'', w_definition = ''Using very few words''\<rparr>"

definition w_a :: Word where
  "w_a = \<lparr>w_id = ''a'', w_word = ''Ephemeral'', w_definition = ''Lasting for a very short time''\<rparr>"

definition w_b :: Word where
  "w_b = \<lparr>w_id = ''b'', w_word = ''Ubiquitous'',
          w_definition = ''Present, appearing, or found everywhere''\<rparr>"

definition ex_cache_state :: state where
  "ex_cache_state = \<lparr>words = [wA, wB, wC], users = [\<lparr>u_id = ''user-1'', u_device_id = ''device-1''\<rparr>],
                     user_words = [], quiz_results = [], cached_articles = [], daily_progress = [],
                     memoryCache = [], openaiClient = False\<rparr>"

definition ex_env_0 :: env where
  "ex_env_0 = \<lparr>now = 1000, uid1 = ''1000-p0o9i8u7y'', uid2 = ''1000-l1k2j3h4g'',
               today = ''1970-01-01'', llm = LLMFails\<rparr>"


definition ex_env_100 :: env where
  "ex_env_100 = \<lparr>now = 100000, uid1 = ''100000-m4n5b6v7c'', uid2 = ''100000-x1z2a3s4d'',
                 today = ''1970-01-01'', llm = LLMFails\<rparr>"

definition ex_rows :: "cached_article_row list" where
  "ex_rows =
     [\<lparr>ca_id = ''article-1'', ca_word_ids = ''A'', ca_article_text = ''One ______.'',
       ca_created_at = 10, ca_access_count = 0, ca_last_accessed = 10\<rparr>,
      \<lparr>ca_id = ''article-2'', ca_word_ids = ''B'', ca_article_text = ''Two ______.'',
       ca_created_at = 20, ca_access_count = 3, ca_last_accessed = 90\<rparr>,
      \<lparr>ca_id = ''article-3'', ca_word_ids = ''C'', ca_article_text = ''Three ______.'',
       ca_created_at = 30, ca_access_count = 1, ca_last_accessed = 40\<rparr>]"

definition ex_full_state :: state where
  "ex_full_state = ex_cache_state\<lparr>cached_articles := ex_rows\<rparr>"


definition ex_process :: process where
  "ex_process = \<lparr>p_state = ex_cache_state, p_suspended = []\<rparr>"

definition ex_two_resolves :: "event list" where
  "ex_two_resolves = [Call ex_env_0 [wA], Resume 0 ex_env_0,
                      Call ex_env_100 [wB], Resume 0 ex_env_100]"

definition ex_env_first :: env where
  "ex_env_first = \<lparr>now = 3000, uid1 = ''3000-q1w2e3r4t'', uid2 = ''3000-y5u6i7o8p'',
                   today = ''1970-01-01'', llm = LLMContent (Some ''First ______.'')\<rparr>"

definition ex_env_second :: env where
  "ex_env_second = \<lparr>now = 4000, uid1 = ''4000-a9s8d7f6g'', uid2 = ''4000-h5j4k3l2z'',
                    today = ''1970-01-01'', llm = LLMContent (Some ''Second ______.'')\<rparr>"

definition ex_overlap :: "event list" where
  "ex_overlap = [Call ex_env_0 [wA], Call ex_env_0 [wA],
                 Resume 0 ex_env_first, Resume 0 ex_env_second]"



section \<open>The progress routes\<close>

subsection \<open>What the handlers write to \<open>user_words\<close>\<close>

lemma find_map_same:
  assumes "\<And>x. P (f x) = P x"
  shows "find P (map f xs) = map_option f (find P xs)"
  using assms by (induction xs) auto

lemma quiz_result_user_words:
  "user_words (snd (quiz_result cfg e s u w c)) =
     (if u = [] \<or> w = [] \<or> find (\<lambda>x. u_id x = u) (users s) = None
         \<or> find (\<lambda>x. w_id x = w) (words s) = None
         \<or> insert_quiz_result cfg
                \<lparr>qr_id = ''qr-'' @ uid1 e, qr_user_id = u, qr_word_id = w,
                 qr_is_correct = (if c then 1 else 0), qr_quiz_type = ''fill_blank'',
                 qr_timestamp = clock e\<rparr> s = None
      then user_words s
      else case get_user_word s u w of
             None \<Rightarrow> user_words s
           | Some userWord \<Rightarrow>
               map (\<lambda>r. if uw_id r = uw_id userWord
                         then update_user_word r (newBucket (uw_bucket userWord) c) c (clock e)
                         else r) (user_words s))"
  by (simp add: quiz_result_def Let_def get_user_word_def get_daily_progress_def
      insert_quiz_result_def insert_daily_progress_def
      split: option.split)

lemma save_word_user_words:
  "user_words (snd (save_word cfg e s u w)) =
     (if u = [] \<or> w = [] \<or> find (\<lambda>x. w_id x = w) (words s) = None
         \<or> get_user_word s u w \<noteq> None
         \<or> insert_user_word cfg
               \<lparr>uw_id = ''uw-'' @ uid1 e, uw_user_id = u, uw_word_id = w,
                uw_bucket = needs_work, uw_created_at = clock e, uw_last_reviewed = None,
                uw_review_count = 0, uw_correct_count = 0, uw_incorrect_count = 0\<rparr> s = None
      then user_words s
      else user_words s @
             [\<lparr>uw_id = ''uw-'' @ uid1 e, uw_user_id = u, uw_word_id = w,
               uw_bucket = needs_work, uw_created_at = clock e, uw_last_reviewed = None,
               uw_review_count = 0, uw_correct_count = 0, uw_incorrect_count = 0\<rparr>])"
  by (simp add: save_word_def Let_def get_user_word_def get_daily_progress_def
      insert_user_word_def insert_daily_progress_def
      split: option.split)

lemma save_word_words: "words (snd (save_word cfg e s u w)) = words s"
  by (simp add: save_word_def Let_def get_user_word_def get_daily_progress_def
      insert_user_word_def insert_daily_progress_def
      split: option.split)

lemma quiz_result_words: "words (snd (quiz_result cfg e s u w c)) = words s"
  by (simp add: quiz_result_def Let_def get_user_word_def get_daily_progress_def
      insert_quiz_result_def insert_daily_progress_def
      split: option.split)

subsection \<open>The bucket transition\<close>

lemma quiz_result_row:
  assumes "u \<noteq> []" "w \<noteq> []"
    and "find (\<lambda>x. u_id x = u) (users s) \<noteq> None"
    and "find (\<lambda>x. w_id x = w) (words s) \<noteq> None"
    and "''qr-'' @ uid1 e \<notin> set (map qr_id (quiz_results s))"
    and "get_user_word s u w = Some r"
  shows "get_user_word (snd (quiz_result cfg e s u w c)) u w
           = Some (update_user_word r (newBucket (uw_bucket r) c) c (clock e))"
proof -
  from assms(3) have a: "u \<in> u_id ` set (users s)" unfolding find_None_iff by auto
  from assms(4) have b: "w \<in> w_id ` set (words s)" unfolding find_None_iff by auto
  have ins: "insert_quiz_result cfg
                \<lparr>qr_id = ''qr-'' @ uid1 e, qr_user_id = u, qr_word_id = w,
                 qr_is_correct = (if c then 1 else 0), qr_quiz_type = ''fill_blank'',
                 qr_timestamp = clock e\<rparr> s \<noteq> None"
    using a b assms(5) by (simp add: insert_quiz_result_def)
  let ?f = "\<lambda>x. if uw_id x = uw_id r
                 then update_user_word x (newBucket (uw_bucket r) c) c (clock e) else x"
  have uw: "user_words (snd (quiz_result cfg e s u w c)) = map ?f (user_words s)"
    using assms ins by (auto simp: quiz_result_user_words)
  have "find (\<lambda>x. uw_user_id x = u \<and> uw_word_id x = w) (map ?f (user_words s))
          = map_option ?f (find (\<lambda>x. uw_user_id x = u \<and> uw_word_id x = w) (user_words s))"
    by (rule find_map_same) (simp add: update_user_word_def)
  with uw assms(6) show ?thesis
    by (simp add: get_user_word_def)
qed

text \<open>Claim C2. When the quiz-result handler updates the row of a saved word, the bucket it stores
  is \<open>newBucket\<close> of the row's bucket: a correct answer takes
  \<open>needs work\<close> to \<open>familiar\<close>, \<open>familiar\<close> to
  \<open>well known\<close> and leaves \<open>well known\<close>; an incorrect answer takes
  every bucket to \<open>needs work\<close>.\<close>

theorem bucket_transition:
  assumes "u \<noteq> []" "w \<noteq> []"
    and "find (\<lambda>x. u_id x = u) (users s) \<noteq> None"
    and "find (\<lambda>x. w_id x = w) (words s) \<noteq> None"
    and "''qr-'' @ uid1 e \<notin> set (map qr_id (quiz_results s))"
    and "get_user_word s u w = Some r"
  shows "map_option uw_bucket (get_user_word (snd (quiz_result cfg e s u w c)) u w)
           = Some (newBucket (uw_bucket r) c)
       \<and> newBucket needs_work True = familiar
       \<and> newBucket familiar True = well_known
       \<and> newBucket well_known True = well_known
       \<and> newBucket b False = needs_work"
  using quiz_result_row [OF assms, of cfg c]
  by (simp add: update_user_word_def newBucket_def needs_work_def familiar_def well_known_def)

theorem bucket_transition_witness:
  "map_option uw_bucket
     (get_user_word (snd (quiz_result default_config ex_env2 ex_saved ''user-1'' ''word-3'' True))
        ''user-1'' ''word-3'') = Some ''familiar''"
proof -
  have h1: "''user-1'' \<noteq> []" and h2: "''word-3'' \<noteq> []" by simp_all
  have h3: "find (\<lambda>x. u_id x = ''user-1'') (users ex_saved) \<noteq> None" by code_simp
  have h4: "find (\<lambda>x. w_id x = ''word-3'') (words ex_saved) \<noteq> None" by code_simp
  have h5: "''qr-'' @ uid1 ex_env2 \<notin> set (map qr_id (quiz_results ex_saved))" by code_simp
  have h6: "get_user_word ex_saved ''user-1'' ''word-3'' = Some ex_user_word" by code_simp
  have b: "newBucket (uw_bucket ex_user_word) True = ''familiar''" by code_simp
  from bucket_transition [OF h1 h2 h3 h4 h5 h6, of default_config True] b show ?thesis
    by simp
qed

subsection \<open>A quiz result for a word that is not saved\<close>

text \<open>Claim C4, as amended. For a user and a word with no \<open>user_words\<close> row, the
  quiz-result handler answers 404 and writes nothing only when the user or the word itself
  does not exist; when both exist it inserts the \<open>quiz_results\<close> row, leaves
  \<open>user_words\<close> and \<open>daily_progress\<close> as they are, and answers with
  success and \<open>newBucket: null\<close>.\<close>

theorem quiz_result_unsaved_word:
  assumes "get_user_word s u w = None"
  shows "quiz_result cfg e s u w c =
     (if u = [] \<or> w = [] then (Status 400 ''userId, wordId, and isCorrect are required'', s)
      else if find (\<lambda>x. u_id x = u) (users s) = None then (Status 404 ''User not found'', s)
      else if find (\<lambda>x. w_id x = w) (words s) = None then (Status 404 ''Word not found'', s)
      else if ''qr-'' @ uid1 e \<in> set (map qr_id (quiz_results s)) then (Next SqliteConstraint, s)
      else (QuizResultJson ''Quiz result saved'' (''qr-'' @ uid1 e) None,
            s\<lparr>quiz_results := quiz_results s @
                 [\<lparr>qr_id = ''qr-'' @ uid1 e, qr_user_id = u, qr_word_id = w,
                   qr_is_correct = (if c then 1 else 0), qr_quiz_type = ''fill_blank'',
                   qr_timestamp = clock e\<rparr>]\<rparr>))"
proof -
  have a: "find (\<lambda>x. u_id x = u) (users s) \<noteq> None \<Longrightarrow> u \<in> u_id ` set (users s)"
    unfolding find_None_iff by auto
  have b: "find (\<lambda>x. w_id x = w) (words s) \<noteq> None \<Longrightarrow> w \<in> w_id ` set (words s)"
    unfolding find_None_iff by auto
  show ?thesis
    using assms a b
    by (simp add: quiz_result_def insert_quiz_result_def get_user_word_def Let_def)
qed

theorem quiz_result_unsaved_word_witness:
  "quiz_result default_config ex_env2 ex_state ''user-1'' ''word-3'' True
     = (QuizResultJson ''Quiz result saved'' ''qr-1700000060000-a1b2c3d4e'' None,
        ex_state\<lparr>quiz_results := [ex_quiz_row]\<rparr>)"
proof -
  have h: "get_user_word ex_state ''user-1'' ''word-3'' = None" by code_simp
  have "(if ''user-1'' = [] \<or> ''word-3'' = [] then (Status 400 ''userId, wordId, and isCorrect are required'', ex_state)
      else if find (\<lambda>x. u_id x = ''user-1'') (users ex_state) = None then (Status 404 ''User not found'', ex_state)
      else if find (\<lambda>x. w_id x = ''word-3'') (words ex_state) = None then (Status 404 ''Word not found'', ex_state)
      else if ''qr-'' @ uid1 ex_env2 \<in> set (map qr_id (quiz_results ex_state)) then (Next SqliteConstraint, ex_state)
      else (QuizResultJson ''Quiz result saved'' (''qr-'' @ uid1 ex_env2) None,
            ex_state\<lparr>quiz_results := quiz_results ex_state @
                 [\<lparr>qr_id = ''qr-'' @ uid1 ex_env2, qr_user_id = ''user-1'', qr_word_id = ''word-3'',
                   qr_is_correct = (if True then 1 else 0), qr_quiz_type = ''fill_blank'',
                   qr_timestamp = clock ex_env2\<rparr>]\<rparr>))
     = (QuizResultJson ''Quiz result saved'' ''qr-1700000060000-a1b2c3d4e'' None,
        ex_state\<lparr>quiz_results := [ex_quiz_row]\<rparr>)"
    by code_simp
  with quiz_result_unsaved_word [OF h, of default_config ex_env2 True] show ?thesis
    by simp
qed

text \<open>Claim C4 as stated fails: the user and the word exist, the word is not saved, and the
  handler reports success after inserting a \<open>quiz_results\<close> row.\<close>

theorem quiz_result_unsaved_word_counterexample:
  "get_user_word ex_state ''user-1'' ''word-3'' = None
   \<and> fst (quiz_result default_config ex_env2 ex_state ''user-1'' ''word-3'' True)
       = QuizResultJson ''Quiz result saved'' ''qr-1700000060000-a1b2c3d4e'' None
   \<and> quiz_results ex_state = []
   \<and> quiz_results (snd (quiz_result default_config ex_env2 ex_state ''user-1'' ''word-3'' True))
       = [ex_quiz_row]"
  by code_simp

subsection \<open>The review counters\<close>

lemma update_user_word_counts:
  "counts_ok r \<Longrightarrow> counts_ok (update_user_word r b c t)"
  by (simp add: counts_ok_def update_user_word_def)

lemma handle_counts_ok:
  assumes "\<forall>r\<in>set (user_words s). counts_ok r"
  shows "\<forall>r\<in>set (user_words (snd (handle cfg req s))). counts_ok r"
proof (cases req)
  case (SaveWord e u w)
  with assms show ?thesis
    by (auto simp: save_word_user_words counts_ok_def)
next
  case (QuizResult e u w c)
  with assms show ?thesis
    by (auto simp: quiz_result_user_words update_user_word_counts split: option.splits)
qed

text \<open>Claim C5. The save-word and quiz-result handlers keep
  \<open>review_count = correct_count + incorrect_count\<close> in every
  \<open>user_words\<close> row, from any table where it holds (the empty one, and a new row
  has the three counters 0); an update adds one to \<open>review_count\<close> and one to
  exactly one of the other two counters.\<close>

theorem review_count_invariant:
  assumes "\<forall>r\<in>set (user_words s). counts_ok r"
  shows "(\<forall>r\<in>set (user_words (run_requests cfg reqs s)). counts_ok r)
       \<and> uw_review_count (update_user_word x b c t) = uw_review_count x + 1
       \<and> uw_correct_count (update_user_word x b c t) + uw_incorrect_count (update_user_word x b c t)
           = uw_correct_count x + uw_incorrect_count x + 1
       \<and> (uw_correct_count (update_user_word x b c t) = uw_correct_count x
           \<or> uw_incorrect_count (update_user_word x b c t) = uw_incorrect_count x)"
proof -
  have "\<forall>r\<in>set (user_words (run_requests cfg reqs s)). counts_ok r"
    using assms
  proof (induction reqs arbitrary: s)
    case Nil
    then show ?case by simp
  next
    case (Cons req reqs)
    have "\<forall>r\<in>set (user_words (snd (handle cfg req s))). counts_ok r"
      by (rule handle_counts_ok [OF Cons.prems])
    then have "\<forall>r\<in>set (user_words (run_requests cfg reqs (snd (handle cfg req s)))). counts_ok r"
      by (rule Cons.IH)
    then show ?case by simp
  qed
  then show ?thesis
    by (simp add: update_user_word_def)
qed

theorem review_count_invariant_witness:
  "map (\<lambda>r. (uw_review_count r, uw_correct_count r, uw_incorrect_count r))
     (user_words (run_requests default_config ex_requests ex_state)) = [(2, 1, 1)]
   \<and> list_all counts_ok (user_words (run_requests default_config ex_requests ex_state))"
proof -
  have h: "\<forall>r\<in>set (user_words ex_state). counts_ok r"
    by (simp add: ex_state_def)
  have "map (\<lambda>r. (uw_review_count r, uw_correct_count r, uw_incorrect_count r))
          (user_words (run_requests default_config ex_requests ex_state)) = [(2, 1, 1)]"
    by code_simp
  with review_count_invariant [OF h, of default_config ex_requests] show ?thesis
    by (simp add: list_all_iff)
qed

subsection \<open>Saving a word twice\<close>

lemma handle_saved_rows_ok:
  assumes "saved_rows_ok s"
  shows "saved_rows_ok (snd (handle cfg req s))"
proof (cases req)
  case (SaveWord e u w)
  have "find (\<lambda>x. w_id x = w) (words s) \<noteq> None \<Longrightarrow> w \<in> w_id ` set (words s)"
    unfolding find_None_iff by auto
  with assms SaveWord show ?thesis
    by (auto simp: saved_rows_ok_def save_word_user_words save_word_words)
next
  case (QuizResult e u w c)
  with assms show ?thesis
    by (auto simp: saved_rows_ok_def quiz_result_user_words quiz_result_words
        update_user_word_def split: option.splits)
qed

lemma run_saved_rows_ok:
  "saved_rows_ok s \<Longrightarrow> saved_rows_ok (run_requests cfg reqs s)"
proof (induction reqs arbitrary: s)
  case Nil
  then show ?case by simp
next
  case (Cons req reqs)
  have "saved_rows_ok (snd (handle cfg req s))"
    by (rule handle_saved_rows_ok [OF Cons.prems])
  then have "saved_rows_ok (run_requests cfg reqs (snd (handle cfg req s)))"
    by (rule Cons.IH)
  then show ?case by simp
qed

text \<open>Claim C10. In every state that the save-word and quiz-result handlers reach from an empty
  \<open>user_words\<close> table, saving a pair that has a row answers with the id of that
  row and changes nothing in the state.\<close>

theorem save_word_idempotent:
  assumes "user_words s0 = []"
    and "get_user_word (run_requests cfg reqs s0) u w = Some r"
  shows "save_word cfg' e (run_requests cfg reqs s0) u w
           = (SaveWordJson ''Word already saved'' (uw_id r), run_requests cfg reqs s0)"
proof -
  let ?s = "run_requests cfg reqs s0"
  have "saved_rows_ok s0" using assms(1) by (simp add: saved_rows_ok_def)
  then have ok: "saved_rows_ok ?s" by (rule run_saved_rows_ok)
  from assms(2) have r: "r \<in> set (user_words ?s)" "uw_user_id r = u" "uw_word_id r = w"
    by (auto simp: get_user_word_def find_Some_iff in_set_conv_nth)
  with ok have "u \<noteq> []" "w \<noteq> []" "w \<in> set (map w_id (words ?s))"
    by (auto simp: saved_rows_ok_def)
  then obtain x where "find (\<lambda>x. w_id x = w) (words ?s) = Some x"
    by (cases "find (\<lambda>x. w_id x = w) (words ?s)") (auto simp: find_None_iff)
  with \<open>u \<noteq> []\<close> \<open>w \<noteq> []\<close> assms(2) show ?thesis
    by (simp add: save_word_def)
qed

theorem save_word_idempotent_witness:
  "save_word default_config ex_env2
     (run_requests default_config [SaveWord ex_env ''user-1'' ''word-3''] ex_state)
     ''user-1'' ''word-3''
   = (SaveWordJson ''Word already saved'' ''uw-1700000000000-k3j9x2abc'',
      run_requests default_config [SaveWord ex_env ''user-1'' ''word-3''] ex_state)"
proof -
  have h1: "user_words ex_state = []" by code_simp
  have h2: "get_user_word (run_requests default_config [SaveWord ex_env ''user-1'' ''word-3''] ex_state)
              ''user-1'' ''word-3'' = Some ex_user_word"
    by code_simp
  have h3: "uw_id ex_user_word = ''uw-1700000000000-k3j9x2abc''" by code_simp
  from save_word_idempotent [OF h1 h2, of default_config ex_env2] h3 show ?thesis
    by simp
qed

section \<open>The cache key\<close>

text \<open>Sorting makes the key independent of the order of the words; joining with a comma
  is injective on identifiers that contain none.\<close>

lemma sort_mset_eq:
  fixes a b :: "'a::linorder list"
  shows "mset a = mset b \<Longrightarrow> sort a = sort b"
  by (rule properties_for_sort) simp_all

lemma cacheKey_perm:
  assumes "mset (map w_id xs) = mset (map w_id ys)"
  shows "cacheKey xs = cacheKey ys"
proof -
  have "sort (map w_id xs) = sort (map w_id ys)"
    using assms by (rule sort_mset_eq)
  then show ?thesis by (simp add: cacheKey_def)
qed

lemma comma_split:
  assumes "c \<notin> set x" "c \<notin> set y" "x @ c # r = y @ c # r'"
  shows "x = y \<and> r = r'"
  using assms
proof (induction x arbitrary: y)
  case Nil
  then show ?case by (cases y) auto
next
  case (Cons a x)
  then show ?case by (cases y) auto
qed

lemma join_Cons:
  "join sep (x # xs) = (if xs = [] then x else x @ sep @ join sep xs)"
  by (cases xs) simp_all

lemma join_comma_inj:
  assumes "\<forall>x\<in>set xs. c \<notin> set x" "\<forall>y\<in>set ys. c \<notin> set y"
    and "xs \<noteq> []" "ys \<noteq> []" "join [c] xs = join [c] ys"
  shows "xs = ys"
  using assms
proof (induction xs arbitrary: ys)
  case Nil
  then show ?case by simp
next
  case (Cons x xs)
  from Cons.prems obtain y ys' where ys: "ys = y # ys'" by (cases ys) auto
  have cx: "c \<notin> set x" and cy: "c \<notin> set y" using Cons.prems ys by auto
  show ?case
  proof (cases "xs = []")
    case xe: True
    show ?thesis
    proof (cases "ys' = []")
      case True
      with xe Cons.prems ys show ?thesis by simp
    next
      case False
      with xe Cons.prems ys have "x = y @ c # join [c] ys'" by (simp add: join_Cons)
      with cx show ?thesis by auto
    qed
  next
    case xn: False
    show ?thesis
    proof (cases "ys' = []")
      case True
      with xn Cons.prems ys have "y = x @ c # join [c] xs" by (simp add: join_Cons)
      with cy show ?thesis by auto
    next
      case False
      with xn Cons.prems ys have "x @ c # join [c] xs = y @ c # join [c] ys'"
        by (simp add: join_Cons)
      from comma_split [OF cx cy this] have "x = y" "join [c] xs = join [c] ys'" by auto
      moreover have "xs = ys'"
        using Cons.IH [of ys'] Cons.prems ys xn False \<open>join [c] xs = join [c] ys'\<close> by auto
      ultimately show ?thesis using ys by simp
    qed
  qed
qed

text \<open>Claim C6, as amended. Word lists with the same identifiers in any order get the same cache
  key. Two non-empty lists with different identifiers get different keys provided no
  identifier contains a comma, the separator of the key.\<close>

theorem cacheKey_canonical:
  "(mset (map w_id xs) = mset (map w_id ys) \<longrightarrow> cacheKey xs = cacheKey ys) \<and>
   (xs \<noteq> [] \<and> ys \<noteq> [] \<and> (\<forall>w\<in>set xs \<union> set ys. CHR '','' \<notin> set (w_id w))
      \<and> cacheKey xs = cacheKey ys
    \<longrightarrow> mset (map w_id xs) = mset (map w_id ys))"
proof (intro conjI impI)
  assume "mset (map w_id xs) = mset (map w_id ys)"
  then show "cacheKey xs = cacheKey ys" by (rule cacheKey_perm)
next
  assume a: "xs \<noteq> [] \<and> ys \<noteq> [] \<and> (\<forall>w\<in>set xs \<union> set ys. CHR '','' \<notin> set (w_id w))
      \<and> cacheKey xs = cacheKey ys"
  let ?a = "sort (map w_id xs)" and ?b = "sort (map w_id ys)"
  have "?a = ?b"
  proof (rule join_comma_inj [where c = "CHR '',''"])
    show "\<forall>x\<in>set ?a. CHR '','' \<notin> set x" using a by auto
    show "\<forall>y\<in>set ?b. CHR '','' \<notin> set y" using a by auto
    show "?a \<noteq> []" using a by (metis length_0_conv length_map length_sort)
    show "?b \<noteq> []" using a by (metis length_0_conv length_map length_sort)
    show "join '','' ?a = join '','' ?b" using a by (simp add: cacheKey_def)
  qed
  then have "mset ?a = mset ?b" by simp
  then show "mset (map w_id xs) = mset (map w_id ys)" by simp
qed

theorem cacheKey_canonical_witness:
  "cacheKey [wC, wB, wA] = cacheKey [wA, wB, wC] \<and> cacheKey [wA, wB] \<noteq> cacheKey [wA, wC]"
proof -
  have h1: "mset (map w_id [wC, wB, wA]) = mset (map w_id [wA, wB, wC])"
    by (simp add: wA_def wB_def wC_def)
  have h2: "[wA, wB] \<noteq> [] \<and> [wA, wC] \<noteq> []
              \<and> (\<forall>w\<in>set [wA, wB] \<union> set [wA, wC]. CHR '','' \<notin> set (w_id w))"
    by (simp add: wA_def wB_def wC_def)
  have h3: "mset (map w_id [wA, wB]) \<noteq> mset (map w_id [wA, wC])"
    by (simp add: wA_def wB_def wC_def)
  from cacheKey_canonical [of "[wC, wB, wA]" "[wA, wB, wC]"] h1
  have a: "cacheKey [wC, wB, wA] = cacheKey [wA, wB, wC]" by blast
  from cacheKey_canonical [of "[wA, wB]" "[wA, wC]"] h2 h3
  have b: "cacheKey [wA, wB] \<noteq> cacheKey [wA, wC]" by blast
  from a b show ?thesis by simp
qed

text \<open>Claim C6 as stated fails for identifiers that contain the separator: the one-word list with
  identifier \<open>a,b\<close> and the two-word list with identifiers \<open>a\<close> and
  \<open>b\<close> get the same key.\<close>

theorem cacheKey_canonical_counterexample:
  "cacheKey [w_ab] = cacheKey [w_a, w_b]
   \<and> set (map w_id [w_ab]) \<noteq> set (map w_id [w_a, w_b])"
  by code_simp

section \<open>Eviction\<close>

text \<open>The capacity trim on a list of rows.\<close>

lemma trim_oldest:
  fixes rows :: "cached_article_row list" and n :: nat
  assumes d: "distinct (map ca_id rows)"
  defines "D \<equiv> take n (sort_key ca_last_accessed rows)"
  defines "rows' \<equiv> filter (\<lambda>r. ca_id r \<notin> set (map ca_id D)) rows"
  shows "set rows' = set (drop n (sort_key ca_last_accessed rows))"
    and "length rows' = length rows - n"
    and "\<forall>x\<in>set rows - set rows'. \<forall>k\<in>set rows'. ca_last_accessed x \<le> ca_last_accessed k"
proof -
  let ?S = "sort_key ca_last_accessed rows"
  let ?K = "drop n ?S"
  have dr: "distinct rows" using d by (simp add: distinct_map)
  have inj: "inj_on ca_id (set rows)" using d by (simp add: distinct_map)
  have DS: "set D \<subseteq> set rows" unfolding D_def using set_take_subset [of n ?S] by simp
  have S: "?S = D @ ?K" unfolding D_def by simp
  have dS: "distinct ?S" using dr by simp
  then have disj: "set D \<inter> set ?K = {}" using S by (metis distinct_append)
  have un: "set rows = set D \<union> set ?K"
    using S by (metis set_append set_sort)
  have mem: "ca_id r \<in> set (map ca_id D) \<longleftrightarrow> r \<in> set D" if "r \<in> set rows" for r
    using that DS inj by (auto simp: inj_on_def)
  have eq: "rows' = filter (\<lambda>r. r \<notin> set D) rows"
    unfolding rows'_def using mem by (intro filter_cong) auto
  show k: "set rows' = set ?K"
    using eq un disj by auto
  have "distinct rows'" unfolding eq using dr by simp
  then have "length rows' = card (set rows')"
    by (simp add: distinct_card)
  also have "\<dots> = length ?K" using k dS by (simp add: distinct_card)
  finally show "length rows' = length rows - n" by simp
  have "sorted (map ca_last_accessed (D @ ?K))" using S by (metis sorted_sort_key)
  then have le: "\<forall>x\<in>set D. \<forall>k\<in>set ?K. ca_last_accessed x \<le> ca_last_accessed k"
    by (auto simp: sorted_append)
  have "set rows - set rows' \<subseteq> set D" using k un by auto
  with le k show "\<forall>x\<in>set rows - set rows'. \<forall>k\<in>set rows'. ca_last_accessed x \<le> ca_last_accessed k"
    by blast
qed

lemma cleanupOldCache_rows:
  "cached_articles (cleanupOldCache cfg e s) =
     (let rows1 = filter (\<lambda>r. \<not> ca_last_accessed r < now e div 1000 - QUIZ_CACHE_TTL_SECONDS cfg)
                    (cached_articles s)
      in if int (length rows1) > MAX_CACHED_ARTICLES cfg
         then filter (\<lambda>r. ca_id r \<notin> set (map ca_id
                (take (nat (int (length rows1) - MAX_CACHED_ARTICLES cfg))
                   (sort_key ca_last_accessed rows1)))) rows1
         else rows1)"
  by (simp add: cleanupOldCache_def Let_def)

text \<open>Claim C8. After \<open>cleanupOldCache\<close> the table holds at most
  \<open>MAX_CACHED_ARTICLES\<close> rows: as many as were not past the maximum age, or
  exactly the maximum when those were more. The surviving rows are rows of the table before,
  and no deleted row was accessed later than a surviving one. The row ids are distinct
  (\<open>id\<close> is the primary key) and the maximum is not negative.\<close>

theorem cleanupOldCache_capacity:
  assumes d: "distinct (map ca_id (cached_articles s))"
    and m: "0 \<le> MAX_CACHED_ARTICLES cfg"
  shows "int (length (cached_articles (cleanupOldCache cfg e s))) \<le> MAX_CACHED_ARTICLES cfg
       \<and> int (length (cached_articles (cleanupOldCache cfg e s)))
           = min (int (length (filter (\<lambda>r. now e div 1000 - QUIZ_CACHE_TTL_SECONDS cfg
                                              \<le> ca_last_accessed r) (cached_articles s))))
                 (MAX_CACHED_ARTICLES cfg)
       \<and> set (cached_articles (cleanupOldCache cfg e s)) \<subseteq> set (cached_articles s)
       \<and> (\<forall>x\<in>set (cached_articles s) - set (cached_articles (cleanupOldCache cfg e s)).
            \<forall>k\<in>set (cached_articles (cleanupOldCache cfg e s)).
              ca_last_accessed x \<le> ca_last_accessed k)"
proof -
  let ?rows = "cached_articles s"
  let ?c = "now e div 1000 - QUIZ_CACHE_TTL_SECONDS cfg"
  let ?rows1 = "filter (\<lambda>r. \<not> ca_last_accessed r < ?c) ?rows"
  let ?n = "nat (int (length ?rows1) - MAX_CACHED_ARTICLES cfg)"
  let ?out = "cached_articles (cleanupOldCache cfg e s)"
  have d1: "distinct (map ca_id ?rows1)" using d by (rule distinct_map_filter)
  have old: "\<forall>x\<in>set ?rows - set ?rows1. \<forall>k\<in>set ?rows1. ca_last_accessed x \<le> ca_last_accessed k"
    by auto
  have r1: "filter (\<lambda>r. ?c \<le> ca_last_accessed r) ?rows = ?rows1"
    by (simp add: not_less)
  show ?thesis
  proof (cases "int (length ?rows1) > MAX_CACHED_ARTICLES cfg")
    case False
    then have out: "?out = ?rows1" by (simp add: cleanupOldCache_rows)
    from False have "int (length ?rows1) = min (int (length ?rows1)) (MAX_CACHED_ARTICLES cfg)"
      by simp
    with False old show ?thesis unfolding out r1 by auto
  next
    case True
    let ?D = "take ?n (sort_key ca_last_accessed ?rows1)"
    have out: "?out = filter (\<lambda>r. ca_id r \<notin> set (map ca_id ?D)) ?rows1"
      using True by (simp add: cleanupOldCache_rows Let_def)
    note t = trim_oldest [OF d1, of ?n]
    have len: "length ?out = length ?rows1 - ?n" unfolding out by (rule t(2))
    have le: "\<forall>x\<in>set ?rows1 - set ?out. \<forall>k\<in>set ?out. ca_last_accessed x \<le> ca_last_accessed k"
      unfolding out by (rule t(3))
    have sub: "set ?out \<subseteq> set ?rows1" unfolding out by auto
    have c1: "int (length ?out) = MAX_CACHED_ARTICLES cfg"
      using len True m by simp
    have c3: "\<forall>x\<in>set ?rows - set ?out. \<forall>k\<in>set ?out. ca_last_accessed x \<le> ca_last_accessed k"
    proof (intro ballI)
      fix x k assume x: "x \<in> set ?rows - set ?out" and k: "k \<in> set ?out"
      show "ca_last_accessed x \<le> ca_last_accessed k"
      proof (cases "x \<in> set ?rows1")
        case True
        with x k le show ?thesis by auto
      next
        case False
        with x k sub old show ?thesis by blast
      qed
    qed
    from True c1 have "int (length ?out) = min (int (length ?rows1)) (MAX_CACHED_ARTICLES cfg)"
      by simp
    with c1 c3 sub show ?thesis unfolding r1 by auto
  qed
qed

theorem cleanupOldCache_capacity_witness:
  "int (length (cached_articles (cleanupOldCache ex_small_config ex_env_100 ex_full_state))) = 2
   \<and> map ca_id (cached_articles (cleanupOldCache ex_small_config ex_env_100 ex_full_state))
       = [''article-2'', ''article-3'']"
proof -
  have h1: "distinct (map ca_id (cached_articles ex_full_state))" by code_simp
  have h2: "0 \<le> MAX_CACHED_ARTICLES ex_small_config" by code_simp
  have h3: "min (int (length (filter (\<lambda>r. now ex_env_100 div 1000 - QUIZ_CACHE_TTL_SECONDS ex_small_config
                                              \<le> ca_last_accessed r) (cached_articles ex_full_state))))
                (MAX_CACHED_ARTICLES ex_small_config) = 2"
    by code_simp
  have h4: "map ca_id (cached_articles (cleanupOldCache ex_small_config ex_env_100 ex_full_state))
       = [''article-2'', ''article-3'']" by code_simp
  from cleanupOldCache_capacity [OF h1 h2, of ex_env_100] h3 h4 show ?thesis
    by simp
qed

section \<open>Generation\<close>

text \<open>Each sentence of the fallback article has one blank marker, and the sentences are
  joined by a space.\<close>

lemma fallbackSentence_blank:
  "countBlanks (fallbackSentence w @ rest) = Suc (countBlanks rest)"
  by (simp add: fallbackSentence_def Let_def blank_def)

lemma countBlanks_space: "countBlanks (CHR '' '' # rest) = countBlanks rest"
  by (simp add: blank_def)

lemma fallback_blanks:
  "countBlanks (generateFallbackArticle ws) = length ws"
proof -
  have "countBlanks (join '' '' (map fallbackSentence ws)) = length ws"
  proof (induction ws)
    case Nil
    then show ?case by simp
  next
    case (Cons w ws)
    show ?case
    proof (cases "ws = []")
      case True
      with fallbackSentence_blank [of w "[]"] show ?thesis by simp
    next
      case False
      let ?J = "join '' '' (map fallbackSentence ws)"
      have "join '' '' (map fallbackSentence (w # ws)) = fallbackSentence w @ CHR '' '' # ?J"
        using False by (simp add: join_Cons)
      moreover have "countBlanks (fallbackSentence w @ CHR '' '' # ?J) = Suc (countBlanks (CHR '' '' # ?J))"
        by (rule fallbackSentence_blank)
      moreover have "countBlanks (CHR '' '' # ?J) = countBlanks ?J"
        by (rule countBlanks_space)
      ultimately show ?thesis
        using Cons.IH by simp
    qed
  qed
  then show ?thesis by (simp add: generateFallbackArticle_def)
qed

text \<open>\<open>generateArticleWithLLM\<close> fails only for want of the API key; what it returns is
  the trimmed answer of the generator, or the fallback article.\<close>

lemma generateArticleWithLLM_eq:
  "generateArticleWithLLM cfg e s ws =
     (if \<not> openaiClient s \<and> getApiKey cfg = Inl ApiKeyNotSet then (Inl ApiKeyNotSet, s)
      else (Inr (case llm e of
                   LLMFails \<Rightarrow> generateFallbackArticle ws
                 | LLMContent None \<Rightarrow> generateFallbackArticle ws
                 | LLMContent (Some c) \<Rightarrow> if trim c = [] then generateFallbackArticle ws else trim c),
            s\<lparr>openaiClient := True\<rparr>))"
proof -
  have k: "getApiKey cfg = Inl ApiKeyNotSet \<or> (\<exists>key. getApiKey cfg = Inr key)"
    by (simp add: getApiKey_def Let_def)
  have t: "openaiClient s \<Longrightarrow> s\<lparr>openaiClient := True\<rparr> = s" by simp
  show ?thesis
    using k t
    by (auto simp: generateArticleWithLLM_def getOpenAIClient_def Let_def
        split: llm_result.splits option.splits)
qed


lemma fallback_nonempty: "ws \<noteq> [] \<Longrightarrow> generateFallbackArticle ws \<noteq> []"
proof
  assume "ws \<noteq> []" "generateFallbackArticle ws = []"
  then have "countBlanks (generateFallbackArticle ws) = 0" by simp
  with \<open>ws \<noteq> []\<close> show False by (simp add: fallback_blanks)
qed


lemma llm_article_cases:
  "llm_article e ws =
     (case llm e of
        LLMFails \<Rightarrow> generateFallbackArticle ws
      | LLMContent None \<Rightarrow> generateFallbackArticle ws
      | LLMContent (Some c) \<Rightarrow> if trim c = [] then generateFallbackArticle ws else trim c)"
  by (simp add: llm_article_def Let_def split: llm_result.split option.split)

lemma generateArticleWithLLM_article:
  "generateArticleWithLLM cfg e s ws =
     (if \<not> openaiClient s \<and> getApiKey cfg = Inl ApiKeyNotSet then (Inl ApiKeyNotSet, s)
      else (Inr (llm_article e ws), s\<lparr>openaiClient := True\<rparr>))"
  by (simp add: generateArticleWithLLM_eq llm_article_cases)

lemma llm_article_nonempty: "ws \<noteq> [] \<Longrightarrow> llm_article e ws \<noteq> []"
  using fallback_nonempty [of ws]
  by (auto simp: llm_article_cases split: llm_result.splits option.splits)

lemma getOpenAIClient_cases:
  "getOpenAIClient cfg s =
     (if \<not> openaiClient s \<and> getApiKey cfg = Inl ApiKeyNotSet then Inl ApiKeyNotSet
      else Inr (s\<lparr>openaiClient := True\<rparr>))"
proof -
  have k: "getApiKey cfg = Inl ApiKeyNotSet \<or> (\<exists>key. getApiKey cfg = Inr key)"
    by (simp add: getApiKey_def Let_def)
  have t: "openaiClient s \<Longrightarrow> s\<lparr>openaiClient := True\<rparr> = s" by simp
  show ?thesis using k t by (auto simp: getOpenAIClient_def)
qed

section \<open>The two caches\<close>

lemma resolve_empty: "generateQuizArticle cfg e s [] = (Inl NoWordsProvided, s)"
  by (simp add: generateQuizArticle_def)

lemma resolve_memory_hit:
  assumes "ws \<noteq> []"
    and "truthy (fst (cache_get (now e) (cacheKey ws) (memoryCache s))) = Some v"
  shows "generateQuizArticle cfg e s ws
           = (Inr v, s\<lparr>memoryCache := snd (cache_get (now e) (cacheKey ws) (memoryCache s))\<rparr>)"
  using assms by (simp add: generateQuizArticle_def Let_def)

lemma resolve_durable_hit:
  assumes "ws \<noteq> []"
    and "truthy (fst (cache_get (now e) (cacheKey ws) (memoryCache s))) = None"
    and "find (\<lambda>r. ca_word_ids r = cacheKey ws) (cached_articles s) = Some r"
  shows "generateQuizArticle cfg e s ws =
    (let s2 = s\<lparr>memoryCache := snd (cache_get (now e) (cacheKey ws) (memoryCache s)),
                 cached_articles :=
                   map (\<lambda>r. if ca_word_ids r = cacheKey ws
                             then r\<lparr>ca_access_count := ca_access_count r + 1,
                                    ca_last_accessed := clock e\<rparr>
                             else r) (cached_articles s)\<rparr>
     in case cache_set cfg (now e) (cacheKey ws) (ca_article_text r) (memoryCache s2) of
          None \<Rightarrow> (Inl ECACHEFULL, s2)
        | Some m2 \<Rightarrow> (Inr (ca_article_text r), s2\<lparr>memoryCache := m2\<rparr>))"
  using assms by (simp add: generateQuizArticle_def Let_def)

lemma resolve_miss:
  assumes "ws \<noteq> []"
    and "truthy (fst (cache_get (now e) (cacheKey ws) (memoryCache s))) = None"
    and "find (\<lambda>r. ca_word_ids r = cacheKey ws) (cached_articles s) = None"
  shows "generateQuizArticle cfg e s ws =
    (case generateArticleWithLLM cfg e
            (s\<lparr>memoryCache := snd (cache_get (now e) (cacheKey ws) (memoryCache s))\<rparr>) ws of
       (Inl err, s2) \<Rightarrow> (Inl err, s2)
     | (Inr article, s2) \<Rightarrow>
         (case cache_set cfg (now e) (cacheKey ws) article (memoryCache s2) of
            None \<Rightarrow> (Inl ECACHEFULL, s2)
          | Some m2 \<Rightarrow>
              if ''article-'' @ uid1 e \<in> set (map ca_id (cached_articles s2))
              then (Inl SqliteConstraint, s2\<lparr>memoryCache := m2\<rparr>)
              else (Inr article,
                    cleanupOldCache cfg e
                      (s2\<lparr>memoryCache := m2,
                          cached_articles := cached_articles s2 @
                            [\<lparr>ca_id = ''article-'' @ uid1 e, ca_word_ids = cacheKey ws,
                              ca_article_text = article, ca_created_at = clock e,
                              ca_access_count = 0, ca_last_accessed = clock e\<rparr>]\<rparr>))))"
  using assms
  by (simp add: generateQuizArticle_def Let_def insert_cached_article_def
      split: prod.split sum.split option.split)

lemma cleanupOldCache_memory: "memoryCache (cleanupOldCache cfg e s) = memoryCache s"
  by (simp add: cleanupOldCache_def Let_def)

lemma cleanupOldCache_filter:
  "\<exists>P. cached_articles (cleanupOldCache cfg e s) = filter P (cached_articles s)"
proof -
  let ?rows1 = "filter (\<lambda>r. \<not> ca_last_accessed r < now e div 1000 - QUIZ_CACHE_TTL_SECONDS cfg)
                    (cached_articles s)"
  show ?thesis
  proof (cases "int (length ?rows1) > MAX_CACHED_ARTICLES cfg")
    case True
    then show ?thesis
      by (simp add: cleanupOldCache_rows Let_def) blast
  next
    case False
    then show ?thesis
      by (simp add: cleanupOldCache_rows Let_def) blast
  qed
qed

lemma coherent_filter_rows: "coherent m rows \<Longrightarrow> coherent m (filter P rows)"
  by (auto simp: coherent_def distinct_map_filter)

lemma coherent_filter_mem: "coherent m rows \<Longrightarrow> coherent (filter P m) rows"
  by (auto simp: coherent_def distinct_map_filter)

lemma coherent_delete: "coherent m rows \<Longrightarrow> coherent (AList.delete k m) rows"
  by (simp add: AList.delete_eq coherent_filter_mem)

lemma coherent_get: "coherent m rows \<Longrightarrow> coherent (snd (cache_get t k m)) rows"
  by (auto simp: cache_get_def coherent_delete split: option.splits)

lemma coherent_bump:
  assumes "coherent m rows"
  shows "coherent m (map (\<lambda>r. if ca_word_ids r = k
                             then r\<lparr>ca_access_count := ca_access_count r + 1,
                                    ca_last_accessed := t\<rparr>
                             else r) rows)"
proof -
  let ?f = "\<lambda>r. if ca_word_ids r = k
                 then r\<lparr>ca_access_count := ca_access_count r + 1, ca_last_accessed := t\<rparr>
                 else r"
  have ids: "map ca_word_ids (map ?f rows) = map ca_word_ids rows" by (induction rows) auto
  have d: "distinct (map ca_word_ids (map ?f rows))"
    using assms unfolding ids by (simp add: coherent_def)
  have same: "\<exists>r\<in>set rows. ca_word_ids r' = ca_word_ids r \<and> ca_article_text r' = ca_article_text r"
    if "r' \<in> set (map ?f rows)" for r'
    using that by auto
  have "ca_article_text r' = v"
    if "(k', v, t') \<in> set m" "r' \<in> set (map ?f rows)" "ca_word_ids r' = k'" for k' v t' r'
  proof -
    from same [OF that(2)] obtain r0 where "r0 \<in> set rows" "ca_word_ids r' = ca_word_ids r0"
      "ca_article_text r' = ca_article_text r0" by blast
    with assms that(1,3) show ?thesis
      unfolding coherent_def by metis
  qed
  with d assms show ?thesis unfolding coherent_def by blast
qed

lemma set_update_distinct:
  "distinct (map fst m) \<Longrightarrow> set (AList.update k x m) = insert (k, x) {p \<in> set m. fst p \<noteq> k}"
  by (induction m) (auto simp: image_iff)

lemma coherent_set_hit:
  assumes "coherent m rows"
    and "find (\<lambda>r. ca_word_ids r = k) rows = Some r"
    and "cache_set cfg t k (ca_article_text r) m = Some m2"
  shows "coherent m2 rows"
proof -
  from assms(2) have r: "r \<in> set rows" "ca_word_ids r = k"
    by (auto simp: find_Some_iff in_set_conv_nth)
  have d: "distinct (map fst m)" "distinct (map ca_word_ids rows)"
    using assms(1) by (auto simp: coherent_def)
  have only: "r' = r" if "r' \<in> set rows" "ca_word_ids r' = k" for r'
    using that r d(2) by (auto simp: distinct_map inj_on_def)
  obtain x where m2: "m2 = AList.update k (ca_article_text r, x) m"
    using assms(3) by (auto simp: cache_set_def split: if_splits)
  show ?thesis
    using assms(1) d only unfolding m2 coherent_def
    by (auto simp: set_update_distinct distinct_update)
qed

lemma coherent_set_miss:
  assumes "coherent m rows"
    and "find (\<lambda>r. ca_word_ids r = k) rows = None"
    and "cache_set cfg t k a m = Some m2"
  shows "coherent m2 rows"
    and "ca_word_ids new = k \<Longrightarrow> ca_article_text new = a \<Longrightarrow> coherent m2 (rows @ [new])"
proof -
  have none: "\<forall>r\<in>set rows. ca_word_ids r \<noteq> k"
    using assms(2) by (auto simp: find_None_iff)
  have d: "distinct (map fst m)" "distinct (map ca_word_ids rows)"
    using assms(1) by (auto simp: coherent_def)
  obtain x where m2: "m2 = AList.update k (a, x) m"
    using assms(3) by (auto simp: cache_set_def split: if_splits)
  show "coherent m2 rows"
    using assms(1) d none unfolding m2 coherent_def
    by (auto simp: set_update_distinct distinct_update)
  show "coherent m2 (rows @ [new])" if "ca_word_ids new = k" "ca_article_text new = a"
    using assms(1) d none that unfolding m2 coherent_def
    by (auto simp: set_update_distinct distinct_update)
qed

lemma coherent_cleanup:
  "coherent (memoryCache s) (cached_articles s) \<Longrightarrow>
   coherent (memoryCache (cleanupOldCache cfg e s)) (cached_articles (cleanupOldCache cfg e s))"
  using cleanupOldCache_filter [of cfg e s]
  by (auto simp: cleanupOldCache_memory coherent_filter_rows)

subsection \<open>The two parts of a call\<close>

lemma begin_empty: "generateQuizArticle_begin cfg e s [] = (Some (Inl NoWordsProvided), s)"
  by (simp add: generateQuizArticle_begin_def)

lemma begin_memory_hit:
  assumes "ws \<noteq> []"
    and "truthy (fst (cache_get (now e) (cacheKey ws) (memoryCache s))) = Some v"
  shows "generateQuizArticle_begin cfg e s ws
           = (Some (Inr v), s\<lparr>memoryCache := snd (cache_get (now e) (cacheKey ws) (memoryCache s))\<rparr>)"
  using assms by (simp add: generateQuizArticle_begin_def Let_def)

lemma begin_durable_hit:
  assumes "ws \<noteq> []"
    and "truthy (fst (cache_get (now e) (cacheKey ws) (memoryCache s))) = None"
    and "find (\<lambda>r. ca_word_ids r = cacheKey ws) (cached_articles s) = Some r"
  shows "generateQuizArticle_begin cfg e s ws =
    (let s2 = s\<lparr>memoryCache := snd (cache_get (now e) (cacheKey ws) (memoryCache s)),
                 cached_articles :=
                   map (\<lambda>r. if ca_word_ids r = cacheKey ws
                             then r\<lparr>ca_access_count := ca_access_count r + 1,
                                    ca_last_accessed := clock e\<rparr>
                             else r) (cached_articles s)\<rparr>
     in case cache_set cfg (now e) (cacheKey ws) (ca_article_text r) (memoryCache s2) of
          None \<Rightarrow> (Some (Inl ECACHEFULL), s2)
        | Some m2 \<Rightarrow> (Some (Inr (ca_article_text r)), s2\<lparr>memoryCache := m2\<rparr>))"
  using assms by (simp add: generateQuizArticle_begin_def Let_def)

lemma begin_miss:
  assumes "ws \<noteq> []"
    and "truthy (fst (cache_get (now e) (cacheKey ws) (memoryCache s))) = None"
    and "find (\<lambda>r. ca_word_ids r = cacheKey ws) (cached_articles s) = None"
  shows "generateQuizArticle_begin cfg e s ws =
    (if \<not> openaiClient s \<and> getApiKey cfg = Inl ApiKeyNotSet
     then (Some (Inl ApiKeyNotSet),
           s\<lparr>memoryCache := snd (cache_get (now e) (cacheKey ws) (memoryCache s))\<rparr>)
     else (None, s\<lparr>memoryCache := snd (cache_get (now e) (cacheKey ws) (memoryCache s)),
                    openaiClient := True\<rparr>))"
  using assms by (simp add: generateQuizArticle_begin_def Let_def getOpenAIClient_cases)

lemma resume_eq:
  "generateQuizArticle_resume cfg e s ws =
     (case cache_set cfg (now e) (cacheKey ws) (llm_article e ws) (memoryCache s) of
        None \<Rightarrow> (Inl ECACHEFULL, s)
      | Some m2 \<Rightarrow>
          if ''article-'' @ uid1 e \<in> set (map ca_id (cached_articles s))
          then (Inl SqliteConstraint, s\<lparr>memoryCache := m2\<rparr>)
          else (Inr (llm_article e ws),
                cleanupOldCache cfg e
                  (s\<lparr>memoryCache := m2,
                     cached_articles := cached_articles s @
                       [\<lparr>ca_id = ''article-'' @ uid1 e, ca_word_ids = cacheKey ws,
                         ca_article_text = llm_article e ws, ca_created_at = clock e,
                         ca_access_count = 0, ca_last_accessed = clock e\<rparr>]\<rparr>)))"
  by (simp add: generateQuizArticle_resume_def Let_def insert_cached_article_def split: option.split)

text \<open>A call that nothing interrupts is its two parts, one after the other.\<close>

lemma generateQuizArticle_phases:
  "generateQuizArticle cfg e s ws =
     (case generateQuizArticle_begin cfg e s ws of
        (Some result, s1) \<Rightarrow> (result, s1)
      | (None, s1) \<Rightarrow> generateQuizArticle_resume cfg e s1 ws)"
proof (cases "ws = []")
  case True
  then show ?thesis by (simp add: resolve_empty begin_empty)
next
  case ne: False
  show ?thesis
  proof (cases "truthy (fst (cache_get (now e) (cacheKey ws) (memoryCache s)))")
    case (Some v)
    with ne show ?thesis by (simp add: resolve_memory_hit begin_memory_hit)
  next
    case miss: None
    show ?thesis
    proof (cases "find (\<lambda>r. ca_word_ids r = cacheKey ws) (cached_articles s)")
      case (Some r)
      with ne miss show ?thesis
        by (simp add: resolve_durable_hit begin_durable_hit Let_def split: option.split)
    next
      case None
      with ne miss show ?thesis
        by (simp add: resolve_miss begin_miss generateArticleWithLLM_article resume_eq
            split: option.split)
    qed
  qed
qed

subsection \<open>Coherence under interleaving\<close>

lemma bump_keys:
  "map ca_word_ids (map (\<lambda>r. if ca_word_ids r = k
                             then r\<lparr>ca_access_count := ca_access_count r + 1,
                                    ca_last_accessed := t\<rparr>
                             else r) rows) = map ca_word_ids rows"
  by (induction rows) auto

lemma cleanupOldCache_subset:
  "set (cached_articles (cleanupOldCache cfg e s)) \<subseteq> set (cached_articles s)"
  using cleanupOldCache_filter [of cfg e s] by auto

text \<open>What the first part of a call does to the two caches.\<close>

lemma begin_caches:
  assumes c: "coherent (memoryCache s) (cached_articles s)"
    and b: "generateQuizArticle_begin cfg e s ws = (res, s1)"
  shows "coherent (memoryCache s1) (cached_articles s1)"
    and "map ca_word_ids (cached_articles s1) = map ca_word_ids (cached_articles s)"
    and "res = None \<Longrightarrow> \<forall>r\<in>set (cached_articles s1). ca_word_ids r \<noteq> cacheKey ws"
proof -
  let ?k = "cacheKey ws"
  let ?m1 = "snd (cache_get (now e) ?k (memoryCache s))"
  let ?rows = "map (\<lambda>r. if ca_word_ids r = ?k
                             then r\<lparr>ca_access_count := ca_access_count r + 1,
                                    ca_last_accessed := clock e\<rparr>
                             else r) (cached_articles s)"
  have c1: "coherent ?m1 (cached_articles s)" using c by (rule coherent_get)
  have "coherent (memoryCache s1) (cached_articles s1)
        \<and> map ca_word_ids (cached_articles s1) = map ca_word_ids (cached_articles s)
        \<and> (res = None \<longrightarrow> (\<forall>r\<in>set (cached_articles s1). ca_word_ids r \<noteq> ?k))"
  proof (cases "ws = []")
    case True
    with b c show ?thesis by (auto simp: begin_empty)
  next
    case ne: False
    show ?thesis
    proof (cases "truthy (fst (cache_get (now e) ?k (memoryCache s)))")
      case (Some v)
      with ne b c1 show ?thesis by (auto simp: begin_memory_hit)
    next
      case miss: None
      show ?thesis
      proof (cases "find (\<lambda>r. ca_word_ids r = ?k) (cached_articles s)")
        case (Some r)
        have c2: "coherent ?m1 ?rows" using c1 by (rule coherent_bump)
        show ?thesis
        proof (cases "cache_set cfg (now e) ?k (ca_article_text r) ?m1")
          case None
          with ne miss Some b c2 show ?thesis
            by (auto simp: begin_durable_hit bump_keys)
        next
          case (Some m2)
          from coherent_set_hit [OF c1 \<open>find _ _ = Some r\<close> Some]
          have "coherent m2 (cached_articles s)" .
          then have "coherent m2 ?rows" by (rule coherent_bump)
          with ne miss Some \<open>find _ _ = Some r\<close> b show ?thesis
            by (auto simp: begin_durable_hit bump_keys)
        qed
      next
        case None
        then have "\<forall>r\<in>set (cached_articles s). ca_word_ids r \<noteq> ?k"
          by (auto simp: find_None_iff)
        with ne miss None b c1 show ?thesis
          by (auto simp: begin_miss split: if_splits)
      qed
    qed
  qed
  then show "coherent (memoryCache s1) (cached_articles s1)"
    and "map ca_word_ids (cached_articles s1) = map ca_word_ids (cached_articles s)"
    and "res = None \<Longrightarrow> \<forall>r\<in>set (cached_articles s1). ca_word_ids r \<noteq> cacheKey ws"
    by auto
qed

text \<open>What the second part of a call does to the two caches, when no row has its key.\<close>

lemma resume_caches:
  assumes c: "coherent (memoryCache s) (cached_articles s)"
    and n: "\<forall>r\<in>set (cached_articles s). ca_word_ids r \<noteq> cacheKey ws"
  shows "coherent (memoryCache (snd (generateQuizArticle_resume cfg e s ws)))
                  (cached_articles (snd (generateQuizArticle_resume cfg e s ws)))"
    and "\<forall>r\<in>set (cached_articles (snd (generateQuizArticle_resume cfg e s ws))).
           r \<in> set (cached_articles s) \<or> ca_word_ids r = cacheKey ws"
proof -
  let ?k = "cacheKey ws"
  let ?a = "llm_article e ws"
  let ?out = "snd (generateQuizArticle_resume cfg e s ws)"
  have f: "find (\<lambda>r. ca_word_ids r = ?k) (cached_articles s) = None"
    using n by (auto simp: find_None_iff)
  have "coherent (memoryCache ?out) (cached_articles ?out)
        \<and> (\<forall>r\<in>set (cached_articles ?out). r \<in> set (cached_articles s) \<or> ca_word_ids r = ?k)"
  proof (cases "cache_set cfg (now e) ?k ?a (memoryCache s)")
    case None
    with c show ?thesis by (simp add: resume_eq)
  next
    case (Some m2)
    note cm = coherent_set_miss [OF c f Some]
    show ?thesis
    proof (cases "''article-'' @ uid1 e \<in> set (map ca_id (cached_articles s))")
      case True
      with Some cm(1) show ?thesis by (simp add: resume_eq)
    next
      case False
      let ?new = "\<lparr>ca_id = ''article-'' @ uid1 e, ca_word_ids = ?k,
                    ca_article_text = ?a, ca_created_at = clock e,
                    ca_access_count = 0, ca_last_accessed = clock e\<rparr>"
      let ?s4 = "s\<lparr>memoryCache := m2, cached_articles := cached_articles s @ [?new]\<rparr>"
      have o: "?out = cleanupOldCache cfg e ?s4"
        using Some False by (simp add: resume_eq)
      have "coherent m2 (cached_articles s @ [?new])" by (rule cm(2)) simp_all
      then have "coherent (memoryCache ?s4) (cached_articles ?s4)" by simp
      then have 1: "coherent (memoryCache ?out) (cached_articles ?out)"
        unfolding o by (rule coherent_cleanup)
      have "set (cached_articles ?out) \<subseteq> set (cached_articles ?s4)"
        unfolding o by (rule cleanupOldCache_subset)
      then have "set (cached_articles ?out) \<subseteq> insert ?new (set (cached_articles s))"
        by simp
      then have 2: "\<forall>r\<in>set (cached_articles ?out). r \<in> set (cached_articles s) \<or> ca_word_ids r = ?k"
        by auto
      from 1 2 show ?thesis by simp
    qed
  qed
  then show "coherent (memoryCache ?out) (cached_articles ?out)"
    and "\<forall>r\<in>set (cached_articles ?out). r \<in> set (cached_articles s) \<or> ca_word_ids r = ?k"
    by auto
qed

lemma process_coherent_event:
  assumes pc: "process_coherent p"
    and ok: "case ev of Call e ws \<Rightarrow> cacheKey ws \<notin> set (map cacheKey (p_suspended p)) | _ \<Rightarrow> True"
  shows "process_coherent (apply_event cfg ev p)"
proof (cases ev)
  case (Call e ws)
  obtain res s1 where b: "generateQuizArticle_begin cfg e (p_state p) ws = (res, s1)"
    by (cases "generateQuizArticle_begin cfg e (p_state p) ws")
  from pc have c: "coherent (memoryCache (p_state p)) (cached_articles (p_state p))"
    by (simp add: process_coherent_def)
  note bc = begin_caches [OF c b]
  have keys: "ca_word_ids ` set (cached_articles s1) = ca_word_ids ` set (cached_articles (p_state p))"
    using bc(2) by (metis set_map)
  have old: "\<forall>ws' r. ws' \<in> set (p_suspended p) \<and> r \<in> set (cached_articles s1)
                \<longrightarrow> ca_word_ids r \<noteq> cacheKey ws'"
  proof (intro allI impI)
    fix ws' r assume a: "ws' \<in> set (p_suspended p) \<and> r \<in> set (cached_articles s1)"
    then have "ca_word_ids r \<in> ca_word_ids ` set (cached_articles (p_state p))"
      using keys by blast
    then obtain r0 where "r0 \<in> set (cached_articles (p_state p))" "ca_word_ids r0 = ca_word_ids r"
      by auto
    with pc a show "ca_word_ids r \<noteq> cacheKey ws'"
      unfolding process_coherent_def by metis
  qed
  show ?thesis
  proof (cases res)
    case (Some result)
    with Call b pc bc(1) old show ?thesis
      by (simp add: process_coherent_def)
  next
    case None
    with bc(3) have new: "\<forall>r\<in>set (cached_articles s1). ca_word_ids r \<noteq> cacheKey ws" by simp
    from ok Call have fresh: "cacheKey ws \<notin> set (map cacheKey (p_suspended p))" by simp
    with Call b None pc bc(1) old new show ?thesis
      by (auto simp: process_coherent_def)
  qed
next
  case (Resume i e)
  show ?thesis
  proof (cases "i < length (p_suspended p)")
    case False
    with Resume pc show ?thesis by simp
  next
    case True
    let ?ws = "p_suspended p ! i"
    let ?rest = "take i (p_suspended p) @ drop (Suc i) (p_suspended p)"
    let ?out = "snd (generateQuizArticle_resume cfg e (p_state p) ?ws)"
    have mem: "?ws \<in> set (p_suspended p)" using True by simp
    from pc have c: "coherent (memoryCache (p_state p)) (cached_articles (p_state p))"
      and d: "distinct (map cacheKey (p_suspended p))"
      and n: "\<forall>r\<in>set (cached_articles (p_state p)). ca_word_ids r \<noteq> cacheKey ?ws"
      using mem by (auto simp: process_coherent_def)
    note rc = resume_caches [OF c n, of cfg e]
    have split: "p_suspended p = take i (p_suspended p) @ ?ws # drop (Suc i) (p_suspended p)"
      using True by (simp add: id_take_nth_drop)
    have d': "distinct (map cacheKey (take i (p_suspended p) @ ?ws # drop (Suc i) (p_suspended p)))"
      using d split by simp
    then have drest: "distinct (map cacheKey ?rest)" by auto
    have other: "cacheKey ws' \<noteq> cacheKey ?ws" if "ws' \<in> set ?rest" for ws'
    proof
      assume eq: "cacheKey ws' = cacheKey ?ws"
      from that have "cacheKey ws' \<in> cacheKey ` set (take i (p_suspended p))
                      \<or> cacheKey ws' \<in> cacheKey ` set (drop (Suc i) (p_suspended p))"
        by auto
      with eq d' show False by auto
    qed
    have sub: "set ?rest \<subseteq> set (p_suspended p)"
      using split by (metis set_append set_subset_Cons sup_mono subset_refl)
    have rows: "\<forall>ws' r. ws' \<in> set ?rest \<and> r \<in> set (cached_articles ?out)
                  \<longrightarrow> ca_word_ids r \<noteq> cacheKey ws'"
    proof (intro allI impI)
      fix ws' r assume a: "ws' \<in> set ?rest \<and> r \<in> set (cached_articles ?out)"
      with rc(2) have "r \<in> set (cached_articles (p_state p)) \<or> ca_word_ids r = cacheKey ?ws"
        by blast
      then show "ca_word_ids r \<noteq> cacheKey ws'"
      proof
        assume "r \<in> set (cached_articles (p_state p))"
        with pc a sub show ?thesis unfolding process_coherent_def by blast
      next
        assume "ca_word_ids r = cacheKey ?ws"
        with other [of ws'] a show ?thesis by auto
      qed
    qed
    from True Resume rc(1) drest rows show ?thesis
      by (simp add: process_coherent_def)
  qed
next
  case (Sweep e)
  from pc have c: "coherent (memoryCache (p_state p)) (cached_articles (p_state p))"
    by (simp add: process_coherent_def)
  have "set (cached_articles (cleanupOldCache cfg e (p_state p))) \<subseteq> set (cached_articles (p_state p))"
    by (rule cleanupOldCache_subset)
  with Sweep pc coherent_cleanup [OF c, of cfg e] show ?thesis
    unfolding process_coherent_def by (auto simp: subset_iff)
next
  case (CheckData t)
  with pc show ?thesis
    by (simp add: process_coherent_def cache_checkData_def coherent_filter_mem)
qed

lemma process_coherent_run:
  "process_coherent p \<Longrightarrow> no_overlap cfg evs p \<Longrightarrow> process_coherent (run_events cfg evs p)"
proof (induction evs arbitrary: p)
  case Nil
  then show ?case by simp
next
  case (Cons ev evs)
  from Cons.prems(2)
  have ok: "case ev of Call e ws \<Rightarrow> cacheKey ws \<notin> set (map cacheKey (p_suspended p)) | _ \<Rightarrow> True"
    and rest: "no_overlap cfg evs (apply_event cfg ev p)"
    by simp_all
  have "process_coherent (apply_event cfg ev p)"
    using Cons.prems(1) ok by (rule process_coherent_event)
  then have "process_coherent (run_events cfg evs (apply_event cfg ev p))"
    using rest by (rule Cons.IH)
  then show ?case by simp
qed

text \<open>Claim C7, as amended. A call runs in two parts, up to the awaited request to the generator
  and from its answer on; other calls, sweeps and checks of the memory cache may run between
  the two. From a process start (empty memory cache, no call in flight, at most one durable
  row per key) and through every such interleaving in which no call for a key starts while a
  generation for the same key is in flight, no entry of the memory cache has a text that
  differs from the text of a durable row with the same key. The memory cache may hold a key
  the table no longer holds. Without the condition on overlapping calls the property fails
  (lemma \<open>overlapping_misses\<close>): two overlapping misses of one key insert two
  rows, the index on \<open>word_ids\<close> not being unique, and leave the memory cache with
  the second text against the first row.\<close>

theorem memory_never_stale:
  assumes "memoryCache (p_state p0) = []"
    and "p_suspended p0 = []"
    and "distinct (map ca_word_ids (cached_articles (p_state p0)))"
    and "no_overlap cfg evs p0"
  shows "never_stale (p_state (run_events cfg evs p0))"
proof -
  have "process_coherent p0"
    using assms(1-3) by (simp add: process_coherent_def coherent_def)
  then have "process_coherent (run_events cfg evs p0)"
    using assms(4) by (rule process_coherent_run)
  then show ?thesis
    unfolding process_coherent_def never_stale_def coherent_def list_all_iff by blast
qed

theorem memory_never_stale_witness:
  "never_stale (p_state (run_events ex_short_ttl_config ex_two_resolves ex_process))
   \<and> map fst (memoryCache (p_state (run_events ex_short_ttl_config ex_two_resolves ex_process)))
       = [''A'', ''B'']"
proof -
  have h1: "memoryCache (p_state ex_process) = []" by code_simp
  have h2: "p_suspended ex_process = []" by code_simp
  have h3: "distinct (map ca_word_ids (cached_articles (p_state ex_process)))" by code_simp
  have h4: "no_overlap ex_short_ttl_config ex_two_resolves ex_process" by code_simp
  have h5: "map fst (memoryCache (p_state (run_events ex_short_ttl_config ex_two_resolves ex_process)))
       = [''A'', ''B'']"
    by code_simp
  from memory_never_stale [OF h1 h2 h3 h4] h5 show ?thesis
    by simp
qed

text \<open>Claim C7 as stated fails: with the durable maximum age set to 60 seconds (and the memory
  cache's hour), the sweep of a second call 99 seconds later deletes the first call's row, and
  the memory cache still holds its key.\<close>

theorem memory_never_stale_counterexample:
  "\<not> volatile_subset (p_state (run_events ex_short_ttl_config ex_two_resolves ex_process))
   \<and> map fst (memoryCache (p_state (run_events ex_short_ttl_config ex_two_resolves ex_process)))
       = [''A'', ''B'']
   \<and> map ca_word_ids (cached_articles (p_state (run_events ex_short_ttl_config ex_two_resolves ex_process)))
       = [''B'']"
  by code_simp

text \<open>Two calls for one key that overlap: both miss, both insert, and the memory cache holds
  the second text against a first durable row with the first.\<close>

lemma overlapping_misses:
  "\<not> no_overlap ex_config ex_overlap ex_process
   \<and> \<not> never_stale (p_state (run_events ex_config ex_overlap ex_process))
   \<and> map (\<lambda>(k, v, t). (k, v)) (memoryCache (p_state (run_events ex_config ex_overlap ex_process)))
       = [(''A'', ''Second ______.'')]
   \<and> map (\<lambda>r. (ca_word_ids r, ca_article_text r))
        (cached_articles (p_state (run_events ex_config ex_overlap ex_process)))
       = [(''A'', ''First ______.''), (''A'', ''Second ______.'')]"
  by code_simp

section \<open>What a generating call stores\<close>











section \<open>Which failures reach the caller\<close>











section \<open>The second call for the same words\<close>






end
